theory Spec2Isabelle
  imports Complex_Main "HOL-Library.Product_Lexorder"
begin

section \<open>Data model of \<open>src/App.tsx\<close>\<close>

text \<open>
  \<open>type IssueType = "spell" | "grammar" | "clarity" | "structure"\<close> and
  \<open>type Issue = { type; start: number; end: number; tip? }\<close>.  The issues
  come from a JSON response that is cast to the type unchecked, so \<open>start\<close> and
  \<open>end\<close> are any numbers, not only integers.  A finite number is a rational,
  and on finite numbers the subtraction, the comparisons and the truncation that
  \<open>buildSegments\<close> uses are exact in their sign and value, so positions are
  modelled as \<open>rat\<close>; \<open>NaN\<close> and the infinities are outside the model.  The
  optional \<open>tip\<close> is an option.
\<close>

datatype IssueType = Spell | Grammar | Clarity | Structure

record Issue =
  issue_type :: IssueType
  issue_start :: rat
  issue_end :: rat
  issue_tip :: "string option"

text \<open>
  Issues are JavaScript objects and \<open>buildSegments\<close> compares them with \<open>!==\<close>,
  that is by reference.  An issue in the input array is therefore a reference, and
  the objects live in a store.
\<close>

type_synonym ref = nat
type_synonym store = "ref \<Rightarrow> Issue"

text \<open>The marker objects \<open>{ idx, issue, open }\<close> pushed by the first loop.\<close>

record Marker =
  idx :: rat
  issue :: ref
  is_open :: bool

text \<open>The output elements \<open>{ text, type: "plain" | IssueType, tip? }\<close>.\<close>

datatype SegType = Plain | OfIssue IssueType

record Segment =
  seg_text :: string
  seg_type :: SegType
  seg_tip :: "string option"

record State =
  segs :: "Segment list"
  cursor :: rat
  stack :: "ref list"

section \<open>\<open>String.prototype.slice\<close>\<close>

text \<open>
  A string is the list of its code units, which is what \<open>length\<close> and
  \<open>slice\<close> count.  \<open>slice\<close> first truncates each argument towards zero
  (\<open>ToIntegerOrInfinity\<close>); the integer is then taken from the end when
  negative and capped by the length, and the result is empty when the first
  index is not below the second.  \<open>slice_from\<close> is the call with one argument.
\<close>

definition ToInteger :: "rat \<Rightarrow> int" where
  "ToInteger x = (if x < 0 then \<lceil>x\<rceil> else \<lfloor>x\<rfloor>)"

definition slice_index :: "nat \<Rightarrow> rat \<Rightarrow> nat" where
  "slice_index len k =
     (let r = ToInteger k
      in if r < 0 then nat (max (int len + r) 0) else nat (min r (int len)))"

definition slice :: "string \<Rightarrow> rat \<Rightarrow> rat \<Rightarrow> string" where
  "slice s a b =
     (let from = slice_index (length s) a; to = slice_index (length s) b
      in take (to - from) (drop from s))"

definition slice_from :: "string \<Rightarrow> rat \<Rightarrow> string" where
  "slice_from s a = drop (slice_index (length s) a) s"

section \<open>\<open>buildSegments\<close>\<close>

text \<open>The first loop: two markers per issue, in the order of the input array.\<close>

fun markers_of :: "store \<Rightarrow> ref list \<Rightarrow> Marker list" where
  "markers_of h [] = []"
| "markers_of h (it # its) =
     \<lparr>idx = issue_start (h it), issue = it, is_open = True\<rparr>
   # \<lparr>idx = issue_end (h it), issue = it, is_open = False\<rparr>
   # markers_of h its"

text \<open>
  The comparator \<open>(a, b) => a.idx - b.idx || Number(b.open) - Number(a.open)\<close>:
  \<open>||\<close> yields its left operand unless that is zero.
\<close>

definition Number :: "bool \<Rightarrow> rat" where
  "Number b = (if b then 1 else 0)"

definition marker_cmp :: "Marker \<Rightarrow> Marker \<Rightarrow> rat" where
  "marker_cmp a b =
     (if idx a - idx b \<noteq> 0 then idx a - idx b else Number (is_open b) - Number (is_open a))"

text \<open>
  \<open>Array.prototype.sort\<close> is a stable sort (ECMAScript 2019): elements that
  compare equal keep their order.  It is modelled by a stable insertion sort
  with the comparator as a parameter.
\<close>

fun insort_by :: "('a \<Rightarrow> 'a \<Rightarrow> rat) \<Rightarrow> 'a \<Rightarrow> 'a list \<Rightarrow> 'a list" where
  "insort_by cmp x [] = [x]"
| "insort_by cmp x (y # ys) = (if cmp x y \<le> 0 then x # y # ys else y # insort_by cmp x ys)"

definition sort_by :: "('a \<Rightarrow> 'a \<Rightarrow> rat) \<Rightarrow> 'a list \<Rightarrow> 'a list" where
  "sort_by cmp xs = foldr (insort_by cmp) xs []"

text \<open>
  The segment pushed for a slice: \<open>active = stack[stack.length - 1]\<close> is
  \<open>undefined\<close> on the empty stack, then the type is \<open>"plain"\<close> and the tip
  \<open>undefined\<close>.
\<close>

definition active :: "ref list \<Rightarrow> ref option" where
  "active st = (if st = [] then None else Some (last st))"

definition segment_of :: "store \<Rightarrow> ref list \<Rightarrow> string \<Rightarrow> Segment" where
  "segment_of h st txt =
     \<lparr>seg_text = txt,
      seg_type = (case active st of None \<Rightarrow> Plain | Some a \<Rightarrow> OfIssue (issue_type (h a))),
      seg_tip = (case active st of None \<Rightarrow> None | Some a \<Rightarrow> issue_tip (h a))\<rparr>"

text \<open>One iteration of the second loop.\<close>

definition step :: "store \<Rightarrow> string \<Rightarrow> State \<Rightarrow> Marker \<Rightarrow> State" where
  "step h text s m =
     (let s1 = (if idx m > cursor s
                then s\<lparr>segs := segs s @ [segment_of h (stack s) (slice text (cursor s) (idx m))],
                       cursor := idx m\<rparr>
                else s)
      in if is_open m
         then s1\<lparr>stack := stack s1 @ [issue m]\<rparr>
         else s1\<lparr>stack := filter (\<lambda>x. x \<noteq> issue m) (stack s1)\<rparr>)"

fun sweep :: "store \<Rightarrow> string \<Rightarrow> State \<Rightarrow> Marker list \<Rightarrow> State" where
  "sweep h text s [] = s"
| "sweep h text s (m # ms) = sweep h text (step h text s m) ms"

definition init :: State where
  "init = \<lparr>segs = [], cursor = 0, stack = []\<rparr>"

definition finish :: "store \<Rightarrow> string \<Rightarrow> State \<Rightarrow> Segment list" where
  "finish h text s =
     (if cursor s < of_nat (length text)
      then segs s @ [segment_of h (stack s) (slice_from text (cursor s))]
      else segs s)"

definition buildSegments :: "store \<Rightarrow> string \<Rightarrow> ref list \<Rightarrow> Segment list" where
  "buildSegments h text issues =
     finish h text (sweep h text init (sort_by marker_cmp (markers_of h issues)))"


section \<open>Notions used in the properties\<close>

text \<open>
  The comparator orders markers by position and, at one position, an opening
  marker before a closing one.  That order is the lexicographic order of this
  key.
\<close>

definition marker_key :: "Marker \<Rightarrow> rat \<times> bool" where
  "marker_key m = (idx m, \<not> is_open m)"

text \<open>
  The text covered so far: the texts of the pushed segments, in order, are the
  text up to the cursor.
\<close>

definition texts :: "Segment list \<Rightarrow> string" where
  "texts ss = concat (map seg_text ss)"

definition covered :: "string \<Rightarrow> State \<Rightarrow> bool" where
  "covered t s \<longleftrightarrow> 0 \<le> cursor s \<and> texts (segs s) = take (nat \<lfloor>cursor s\<rfloor>) t"

text \<open>
  The annotation that governs a pushed segment, said without the sweep's state.
  After a list of markers the cursor is the largest position seen (or 0), and the
  open annotations are those opened and not closed since, in the order of their
  opening; \<open>still_open\<close> says the latter by positions in the marker list.  The
  marker at place \<open>k\<close> of the sorted list pushes a segment when its position is
  beyond the cursor after the \<open>k\<close> markers before it, and the segment is governed
  by the last added of the annotations open after those markers; the final
  segment is governed by the last added of those open after all markers.
\<close>

definition cursor_after :: "rat \<Rightarrow> Marker list \<Rightarrow> rat" where
  "cursor_after c ms = foldl (\<lambda>c m. max c (idx m)) c ms"

definition stack_after :: "ref list \<Rightarrow> Marker list \<Rightarrow> ref list" where
  "stack_after st ms =
     foldl (\<lambda>st m. if is_open m then st @ [issue m] else filter (\<lambda>x. x \<noteq> issue m) st) st ms"

definition still_open :: "Marker list \<Rightarrow> ref \<Rightarrow> bool" where
  "still_open ms r \<longleftrightarrow>
     (\<exists>i \<in> {..<length ms}. is_open (ms ! i) \<and> issue (ms ! i) = r \<and>
        (\<forall>j \<in> {i<..<length ms}. is_open (ms ! j) \<or> issue (ms ! j) \<noteq> r))"

definition last_added :: "ref list \<Rightarrow> ref option" where
  "last_added st = (case rev st of [] \<Rightarrow> None | r # _ \<Rightarrow> Some r)"

definition governing_at :: "Marker list \<Rightarrow> nat \<Rightarrow> ref option list" where
  "governing_at ms k =
     (if cursor_after 0 (take k ms) < idx (ms ! k)
      then [last_added (stack_after [] (take k ms))] else [])"

definition governing :: "string \<Rightarrow> Marker list \<Rightarrow> ref option list" where
  "governing text ms =
     concat (map (governing_at ms) [0..<length ms])
     @ (if cursor_after 0 ms < of_nat (length text) then [last_added (stack_after [] ms)] else [])"

text \<open>
  The type and tip that a governing annotation gives to its segment, and the
  types and tips of a list of segments.
\<close>

definition note_of :: "store \<Rightarrow> ref option \<Rightarrow> SegType \<times> string option" where
  "note_of h g = (case g of None \<Rightarrow> (Plain, None)
                  | Some r \<Rightarrow> (OfIssue (issue_type (h r)), issue_tip (h r)))"

definition tags :: "Segment list \<Rightarrow> (SegType \<times> string option) list" where
  "tags ss = map (\<lambda>seg. (seg_type seg, seg_tip seg)) ss"

text \<open>
  A weaker reading: a segment agrees in type and tip with some annotation of
  the input, or is plain without tip.
\<close>

definition governed :: "store \<Rightarrow> ref list \<Rightarrow> Segment \<Rightarrow> bool" where
  "governed h issues seg \<longleftrightarrow>
     (seg_type seg = Plain \<and> seg_tip seg = None) \<or>
     (\<exists>i \<in> set issues. seg_type seg = OfIssue (issue_type (h i)) \<and> seg_tip seg = issue_tip (h i))"

definition tagged :: "store \<Rightarrow> ref list \<Rightarrow> State \<Rightarrow> bool" where
  "tagged h issues s \<longleftrightarrow>
     set (stack s) \<subseteq> set issues \<and> (\<forall>seg \<in> set (segs s). governed h issues seg)"

text \<open>
  A position is whole when it is an integer.  \<open>within_text\<close>: every position
  of every annotation is whole and not beyond the length of the text.  A state
  is solid when its cursor is whole and its segments all have a non-empty text.
\<close>

definition whole :: "rat \<Rightarrow> bool" where
  "whole x \<longleftrightarrow> of_int \<lfloor>x\<rfloor> = x"

definition within_text :: "store \<Rightarrow> string \<Rightarrow> ref list \<Rightarrow> bool" where
  "within_text h text issues \<longleftrightarrow>
     (\<forall>i \<in> set issues.
        whole (issue_start (h i)) \<and> whole (issue_end (h i)) \<and>
        issue_start (h i) \<le> of_nat (length text) \<and> issue_end (h i) \<le> of_nat (length text))"

definition solid :: "State \<Rightarrow> bool" where
  "solid s \<longleftrightarrow> 0 \<le> cursor s \<and> whole (cursor s) \<and> (\<forall>seg \<in> set (segs s). seg_text seg \<noteq> [])"

definition nonempty :: "Segment \<Rightarrow> bool" where
  "nonempty seg \<longleftrightarrow> seg_text seg \<noteq> []"

text \<open>
  The tagging of the characters: each character of the output with the type and
  the tip of its segment.
\<close>

definition chars :: "Segment list \<Rightarrow> (char \<times> SegType \<times> string option) list" where
  "chars ss = concat (map (\<lambda>s. map (\<lambda>c. (c, seg_type s, seg_tip s)) (seg_text s)) ss)"

text \<open>
  A state with segments put in front, and the segments that the remaining
  markers and the final step add to a state, which depend on its cursor and
  stack only.
\<close>

definition prefixed :: "Segment list \<Rightarrow> State \<Rightarrow> State" where
  "prefixed pre s = s\<lparr>segs := pre @ segs s\<rparr>"

definition rest :: "store \<Rightarrow> string \<Rightarrow> rat \<Rightarrow> ref list \<Rightarrow> Marker list \<Rightarrow> Segment list" where
  "rest h t c st ms = finish h t (sweep h t \<lparr>segs = [], cursor = c, stack = st\<rparr> ms)"

text \<open>
  Positions cut down to the length of the text, on issues, stores and markers.
\<close>

definition cap_issue :: "nat \<Rightarrow> Issue \<Rightarrow> Issue" where
  "cap_issue L i =
     i\<lparr>issue_start := min (issue_start i) (of_nat L), issue_end := min (issue_end i) (of_nat L)\<rparr>"

definition capped :: "string \<Rightarrow> store \<Rightarrow> store" where
  "capped text h = (\<lambda>r. cap_issue (length text) (h r))"

definition cap_marker :: "nat \<Rightarrow> Marker \<Rightarrow> Marker" where
  "cap_marker L m = m\<lparr>idx := min (idx m) (of_nat L)\<rparr>"

text \<open>
  The boundary event builder as the specification words it: \<open>start\<close> and
  \<open>end\<close> are clamped into \<open>[0, L]\<close>, and a range with \<open>end < start\<close> becomes
  zero-width at \<open>start\<close>.  The source has no such function; this one is only
  compared with it.
\<close>

definition spec_clamp :: "nat \<Rightarrow> rat \<Rightarrow> rat" where
  "spec_clamp L k = max 0 (min k (of_nat L))"

definition spec_normalise :: "nat \<Rightarrow> Issue \<Rightarrow> Issue" where
  "spec_normalise L i =
     (let s = spec_clamp L (issue_start i); e = spec_clamp L (issue_end i)
      in i\<lparr>issue_start := s, issue_end := (if e < s then s else e)\<rparr>)"

definition spec_normalised :: "string \<Rightarrow> store \<Rightarrow> store" where
  "spec_normalised text h = (\<lambda>r. spec_normalise (length text) (h r))"

section \<open>Example inputs\<close>

text \<open>
  Stores for concrete runs.  The first is the scenario
  \<open>"Teh cat was nice."\<close> with one spelling annotation over \<open>[0, 3)\<close>.
\<close>

definition store_teh :: store where
  "store_teh = (\<lambda>_. \<lparr>issue_type = Spell, issue_start = 0, issue_end = 3,
                      issue_tip = Some ''Spelling: the.''\<rparr>)"

definition store_beyond :: store where
  "store_beyond = (\<lambda>_. \<lparr>issue_type = Spell, issue_start = 5, issue_end = 10, issue_tip = None\<rparr>)"

definition store_fraction :: store where
  "store_fraction = (\<lambda>_. \<lparr>issue_type = Spell, issue_start = 3 / 2, issue_end = 17 / 10, issue_tip = None\<rparr>)"

definition store_inverted :: store where
  "store_inverted = (\<lambda>_. \<lparr>issue_type = Clarity, issue_start = 5, issue_end = 2, issue_tip = None\<rparr>)"

definition store_negative :: store where
  "store_negative =
     (\<lambda>_. \<lparr>issue_type = Grammar, issue_start = - 3, issue_end = 5, issue_tip = None\<rparr>)
     (0 := \<lparr>issue_type = Spell, issue_start = - 1, issue_end = 5, issue_tip = None\<rparr>)"

definition store_degenerate :: store where
  "store_degenerate =
     (\<lambda>_. \<lparr>issue_type = Grammar, issue_start = 0, issue_end = 5, issue_tip = None\<rparr>)
     (0 := \<lparr>issue_type = Spell, issue_start = 3, issue_end = 3, issue_tip = None\<rparr>)"

definition store_nested :: store where
  "store_nested =
     (\<lambda>_. \<lparr>issue_type = Clarity, issue_start = 3, issue_end = 6, issue_tip = Some ''Be clearer.''\<rparr>)
     (0 := \<lparr>issue_type = Grammar, issue_start = 0, issue_end = 10, issue_tip = None\<rparr>)"

definition store_crossing :: store where
  "store_crossing =
     (\<lambda>_. \<lparr>issue_type = Clarity, issue_start = 5, issue_end = 15, issue_tip = Some ''Be clearer.''\<rparr>)
     (0 := \<lparr>issue_type = Grammar, issue_start = 0, issue_end = 10, issue_tip = None\<rparr>)"

definition store_touching :: store where
  "store_touching =
     (\<lambda>_. \<lparr>issue_type = Structure, issue_start = 5, issue_end = 10, issue_tip = None\<rparr>)
     (0 := \<lparr>issue_type = Spell, issue_start = 0, issue_end = 5, issue_tip = Some ''Spelling.''\<rparr>)"

definition store_ties :: store where
  "store_ties =
     (\<lambda>_. \<lparr>issue_type = Spell, issue_start = 2, issue_end = 4, issue_tip = None\<rparr>)
     (Suc 0 := \<lparr>issue_type = Grammar, issue_start = 0, issue_end = 4, issue_tip = None\<rparr>)"

definition store_notes :: store where
  "store_notes =
     (\<lambda>_. \<lparr>issue_type = Grammar, issue_start = 5, issue_end = 15, issue_tip = Some ''second''\<rparr>)
     (0 := \<lparr>issue_type = Grammar, issue_start = 0, issue_end = 10, issue_tip = Some ''first''\<rparr>)"

section \<open>The sort\<close>

text \<open>
  With \<open>marker_cmp\<close> the insertion sort is the library's stable sort by
  \<open>marker_key\<close>, so it yields a sorted list, commutes with filters and keeps
  the order of markers with equal keys.  A sorted list of markers is the markers
  before a position, those at it (opening ones first) and those after it.
\<close>

lemma marker_cmp_key: "marker_cmp a b \<le> 0 \<longleftrightarrow> marker_key a \<le> marker_key b"
  by (auto simp: marker_cmp_def marker_key_def Number_def less_eq_prod_def)

lemma insort_by_marker: "insort_by marker_cmp x ys = insort_key marker_key x ys"
  by (induction ys) (simp_all add: marker_cmp_key)

lemma sort_by_marker: "sort_by marker_cmp xs = sort_key marker_key xs"
  by (induction xs) (simp_all add: sort_by_def insort_by_marker)

lemma set_sorted_markers: "set (sort_by marker_cmp ms) = set ms"
  by (simp add: sort_by_marker)

lemma length_sorted_markers: "length (sort_by marker_cmp ms) = length ms"
  by (simp add: sort_by_marker)

lemma sorted_sorted_markers: "sorted (map marker_key (sort_by marker_cmp ms))"
  by (simp add: sort_by_marker)

lemma filter_sorted_markers:
  "filter P (sort_by marker_cmp ms) = sort_by marker_cmp (filter P ms)"
  by (simp add: sort_by_marker filter_sort)

lemma sorted_markers_stable:
  "filter (\<lambda>m. marker_key m = k) (sort_by marker_cmp ms) = filter (\<lambda>m. marker_key m = k) ms"
  by (simp add: sort_by_marker sort_key_stable)

lemma sorted_markers_nth:
  assumes "i < j" "j < length (sort_by marker_cmp ms)"
  shows "marker_key (sort_by marker_cmp ms ! i) \<le> marker_key (sort_by marker_cmp ms ! j)"
proof -
  let ?S = "sort_by marker_cmp ms"
  have "map marker_key ?S ! i \<le> map marker_key ?S ! j"
    using sorted_sorted_markers [of ms] assms by (intro sorted_nth_mono) simp_all
  then show ?thesis using assms by simp
qed

lemma key_open: "marker_key m = (p, False) \<longleftrightarrow> idx m = p \<and> is_open m"
  by (auto simp: marker_key_def)

lemma key_close: "marker_key m = (p, True) \<longleftrightarrow> idx m = p \<and> \<not> is_open m"
  by (auto simp: marker_key_def)

lemma key_below: "marker_key m < (p, False) \<longleftrightarrow> idx m < p"
  by (auto simp: marker_key_def less_prod_def)

lemma key_upto: "marker_key m \<le> (p, True) \<longleftrightarrow> idx m \<le> p"
  by (auto simp: marker_key_def less_eq_prod_def)

lemma sorted_partition:
  fixes f :: "'a \<Rightarrow> 'k::linorder"
  assumes "sorted (map f xs)" and "\<And>x y. f x \<le> f y \<Longrightarrow> P y \<Longrightarrow> P x"
  shows "filter P xs @ filter (\<lambda>x. \<not> P x) xs = xs"
  using assms(1)
proof (induction xs)
  case Nil
  show ?case by simp
next
  case (Cons x xs)
  show ?case
  proof (cases "P x")
    case True
    then show ?thesis using Cons by simp
  next
    case False
    have "\<not> P y" if "y \<in> set xs" for y
    proof
      assume "P y"
      moreover have "f x \<le> f y" using Cons.prems that by auto
      ultimately show False using assms(2) False by blast
    qed
    then have "filter P xs = []" "filter (\<lambda>x. \<not> P x) xs = xs"
      by (simp_all add: filter_empty_conv filter_id_conv)
    then show ?thesis using False by simp
  qed
qed

lemma sorted_markers_partition:
  "sort_by marker_cmp ms =
     sort_by marker_cmp (filter (\<lambda>m. idx m < p) ms) @
     sort_by marker_cmp (filter (\<lambda>m. \<not> idx m < p) ms)"
proof -
  have "filter (\<lambda>m. marker_key m < (p, False)) (sort_by marker_cmp ms) @
        filter (\<lambda>m. \<not> marker_key m < (p, False)) (sort_by marker_cmp ms) = sort_by marker_cmp ms"
    by (rule sorted_partition [OF sorted_sorted_markers]) simp
  then show ?thesis by (simp add: key_below filter_sorted_markers)
qed

lemma sorted_markers_partition_upto:
  "sort_by marker_cmp ms =
     sort_by marker_cmp (filter (\<lambda>m. idx m \<le> p) ms) @
     sort_by marker_cmp (filter (\<lambda>m. \<not> idx m \<le> p) ms)"
proof -
  have "filter (\<lambda>m. marker_key m \<le> (p, True)) (sort_by marker_cmp ms) @
        filter (\<lambda>m. \<not> marker_key m \<le> (p, True)) (sort_by marker_cmp ms) = sort_by marker_cmp ms"
    by (rule sorted_partition [OF sorted_sorted_markers]) simp
  then show ?thesis by (simp add: key_upto filter_sorted_markers)
qed

lemma sorted_markers_partition_open:
  assumes "\<forall>m \<in> set ms. idx m = p"
  shows "sort_by marker_cmp ms = filter is_open ms @ filter (\<lambda>m. \<not> is_open m) ms"
proof -
  let ?S = "sort_by marker_cmp ms"
  have "filter (\<lambda>m. marker_key m < (p, True)) ?S @ filter (\<lambda>m. \<not> marker_key m < (p, True)) ?S = ?S"
    by (rule sorted_partition [OF sorted_sorted_markers]) simp
  moreover have "filter (\<lambda>m. marker_key m < (p, True)) ?S = filter (\<lambda>m. marker_key m = (p, False)) ?S"
    using assms by (intro filter_cong) (auto simp: set_sorted_markers marker_key_def less_prod_def)
  moreover have "filter (\<lambda>m. \<not> marker_key m < (p, True)) ?S = filter (\<lambda>m. marker_key m = (p, True)) ?S"
    using assms by (intro filter_cong) (auto simp: set_sorted_markers marker_key_def less_prod_def)
  moreover have "filter (\<lambda>m. marker_key m = (p, False)) ms = filter is_open ms"
    using assms by (intro filter_cong) (auto simp: marker_key_def)
  moreover have "filter (\<lambda>m. marker_key m = (p, True)) ms = filter (\<lambda>m. \<not> is_open m) ms"
    using assms by (intro filter_cong) (auto simp: marker_key_def)
  ultimately show ?thesis by (simp add: sorted_markers_stable)
qed

lemma sorted_markers_three_way:
  "sort_by marker_cmp ms =
     sort_by marker_cmp (filter (\<lambda>m. idx m < p) ms) @
     sort_by marker_cmp (filter (\<lambda>m. idx m = p) ms) @
     sort_by marker_cmp (filter (\<lambda>m. p < idx m) ms)"
proof -
  let ?ge = "filter (\<lambda>m. \<not> idx m < p) ms"
  have eq: "filter (\<lambda>m. idx m \<le> p) ?ge = filter (\<lambda>m. idx m = p) ms"
    unfolding filter_filter by (rule filter_cong) auto
  have gt: "filter (\<lambda>m. \<not> idx m \<le> p) ?ge = filter (\<lambda>m. p < idx m) ms"
    unfolding filter_filter by (rule filter_cong) auto
  show ?thesis
    using sorted_markers_partition [of ms p] sorted_markers_partition_upto [of ?ge p]
    unfolding eq gt by simp
qed

section \<open>The markers of an annotation list\<close>

lemma markers_of_append: "markers_of h (xs @ ys) = markers_of h xs @ markers_of h ys"
  by (induction xs) simp_all

lemma issue_markers_of: "m \<in> set (markers_of h issues) \<Longrightarrow> issue m \<in> set issues"
  by (induction issues) auto

lemma idx_markers_of:
  "m \<in> set (markers_of h issues) \<Longrightarrow>
   idx m = (if is_open m then issue_start (h (issue m)) else issue_end (h (issue m)))"
  by (induction issues) auto

lemma set_markers_of:
  "set (markers_of h issues) =
     (\<Union>r \<in> set issues. {\<lparr>idx = issue_start (h r), issue = r, is_open = True\<rparr>,
                           \<lparr>idx = issue_end (h r), issue = r, is_open = False\<rparr>})"
  by (induction issues) auto

lemma length_markers_of: "length (markers_of h issues) = 2 * length issues"
  by (induction issues) simp_all

lemma opens_of_markers:
  "map issue (filter (\<lambda>m. idx m = p \<and> is_open m) (markers_of h issues)) =
   filter (\<lambda>i. issue_start (h i) = p) issues"
  by (induction issues) simp_all

lemma closes_of_markers:
  "map issue (filter (\<lambda>m. idx m = p \<and> \<not> is_open m) (markers_of h issues)) =
   filter (\<lambda>i. issue_end (h i) = p) issues"
  by (induction issues) simp_all

lemma closers_of_markers:
  "issue ` set (filter (\<lambda>m. \<not> is_open m) (filter (\<lambda>m. idx m = p) (markers_of h issues))) =
   {i \<in> set issues. issue_end (h i) = p}"
proof -
  have "issue ` set (filter (\<lambda>m. idx m = p \<and> \<not> is_open m) (markers_of h issues)) =
        set (filter (\<lambda>i. issue_end (h i) = p) issues)"
    unfolding closes_of_markers [symmetric] by simp
  then show ?thesis by (simp add: conj_commute)
qed

lemma filter_markers_skip:
  assumes "\<not> Q \<lparr>idx = issue_start (h a), issue = a, is_open = True\<rparr>"
    and "\<not> Q \<lparr>idx = issue_end (h a), issue = a, is_open = False\<rparr>"
  shows "filter Q (markers_of h (xs @ a # ys)) = filter Q (markers_of h (xs @ ys))"
  using assms by (simp add: markers_of_append)

lemma markers_of_cong: "\<forall>i \<in> set issues. h' i = h i \<Longrightarrow> markers_of h' issues = markers_of h issues"
  by (induction issues) simp_all

lemma markers_of_capped:
  "markers_of (capped t h) issues = map (cap_marker (length t)) (markers_of h issues)"
  by (induction issues) (simp_all add: capped_def cap_issue_def cap_marker_def)

lemma filter_cap_marker:
  "filter (\<lambda>m. idx m < of_nat L) (map (cap_marker L) ms) = filter (\<lambda>m. idx m < of_nat L) ms"
  by (induction ms) (auto simp: cap_marker_def)

section \<open>Slices\<close>

lemma floor_nat_mono: "(a::rat) \<le> b \<Longrightarrow> nat \<lfloor>a\<rfloor> \<le> nat \<lfloor>b\<rfloor>"
  by (simp add: floor_mono nat_mono)

lemma floor_nat_length: "rat_of_nat n \<le> b \<Longrightarrow> n \<le> nat \<lfloor>b\<rfloor>"
  by (simp add: le_floor_iff le_nat_iff)

lemma floor_nat_below: "0 \<le> c \<Longrightarrow> c < rat_of_nat n \<Longrightarrow> nat \<lfloor>c\<rfloor> < n"
  by (simp add: floor_less_iff nat_less_iff)

lemma floor_numeral_div: "\<lfloor>numeral a / numeral b :: rat\<rfloor> = numeral a div numeral b"
  using floor_divide_of_int_eq [of "numeral a" "numeral b", where ?'a = rat] by simp

lemma whole_iff: "whole x \<longleftrightarrow> x \<in> \<int>"
  unfolding whole_def by (metis Ints_of_int Ints_cases floor_of_int)

lemma whole_zero: "whole 0"
  by (simp add: whole_iff)

lemma whole_max: "whole a \<Longrightarrow> whole b \<Longrightarrow> whole (max a b)"
  by (simp add: max_def)

lemma whole_min: "whole a \<Longrightarrow> whole b \<Longrightarrow> whole (min a b)"
  by (simp add: min_def)

lemma whole_of_nat: "whole (of_nat n)"
  by (simp add: whole_iff)

lemma slice_nonneg:
  "0 \<le> a \<Longrightarrow> 0 \<le> b \<Longrightarrow> slice s a b = take (nat \<lfloor>b\<rfloor> - nat \<lfloor>a\<rfloor>) (drop (nat \<lfloor>a\<rfloor>) s)"
  by (auto simp: slice_def slice_index_def ToInteger_def Let_def min_def)

lemma slice_from_nonneg: "0 \<le> a \<Longrightarrow> slice_from s a = drop (nat \<lfloor>a\<rfloor>) s"
  by (auto simp: slice_from_def slice_index_def ToInteger_def Let_def min_def)

lemma take_slice:
  assumes "0 \<le> a" "a \<le> b"
  shows "take (nat \<lfloor>a\<rfloor>) s @ slice s a b = take (nat \<lfloor>b\<rfloor>) s"
proof -
  have "nat \<lfloor>b\<rfloor> = nat \<lfloor>a\<rfloor> + (nat \<lfloor>b\<rfloor> - nat \<lfloor>a\<rfloor>)"
    using floor_nat_mono [OF assms(2)] by simp
  then have "take (nat \<lfloor>b\<rfloor>) s = take (nat \<lfloor>a\<rfloor>) s @ take (nat \<lfloor>b\<rfloor> - nat \<lfloor>a\<rfloor>) (drop (nat \<lfloor>a\<rfloor>) s)"
    by (metis take_add)
  then show ?thesis using assms by (simp add: slice_nonneg)
qed

lemma slice_same: "slice t c c = []"
  by (simp add: slice_def)

lemma slice_append:
  assumes "0 \<le> c" "c \<le> p" "p \<le> q"
  shows "slice t c p @ slice t p q = slice t c q"
proof -
  define n k j where "n = nat \<lfloor>c\<rfloor>" and "k = nat \<lfloor>p\<rfloor> - nat \<lfloor>c\<rfloor>" and "j = nat \<lfloor>q\<rfloor> - nat \<lfloor>p\<rfloor>"
  have np: "nat \<lfloor>p\<rfloor> = k + n" and nq: "nat \<lfloor>q\<rfloor> - nat \<lfloor>c\<rfloor> = k + j"
    using floor_nat_mono [OF assms(2)] floor_nat_mono [OF assms(3)]
    by (simp_all add: n_def k_def j_def)
  have s1: "slice t c p = take k (drop n t)"
    using assms by (simp add: slice_nonneg n_def k_def)
  have s2: "slice t p q = take j (drop (k + n) t)"
    using assms by (simp add: slice_nonneg j_def flip: np)
  have s3: "slice t c q = take (k + j) (drop n t)"
    using assms by (simp add: slice_nonneg n_def flip: nq)
  show ?thesis unfolding s1 s2 s3 by (simp add: take_add)
qed

lemma slice_slice_from:
  assumes "0 \<le> c" "c \<le> p"
  shows "slice t c p @ slice_from t p = slice_from t c"
proof -
  define n k where "n = nat \<lfloor>c\<rfloor>" and "k = nat \<lfloor>p\<rfloor> - nat \<lfloor>c\<rfloor>"
  have np: "nat \<lfloor>p\<rfloor> = k + n"
    using floor_nat_mono [OF assms(2)] by (simp add: n_def k_def)
  have "take k (drop n t) @ drop (k + n) t = drop n t"
    using append_take_drop_id [of k "drop n t"] by simp
  then show ?thesis
    using assms by (simp add: slice_nonneg slice_from_nonneg np flip: n_def k_def)
qed

lemma slice_from_beyond: "rat_of_nat (length t) \<le> c \<Longrightarrow> slice_from t c = []"
  using floor_nat_length [of "length t" c] by (simp add: slice_from_nonneg)

lemma slice_beyond: "rat_of_nat (length t) \<le> c \<Longrightarrow> 0 \<le> q \<Longrightarrow> slice t c q = []"
  using floor_nat_length [of "length t" c] by (simp add: slice_nonneg)

lemma slice_to_end: "0 \<le> c \<Longrightarrow> rat_of_nat (length t) \<le> q \<Longrightarrow> slice t c q = slice_from t c"
  using floor_nat_length [of "length t" q] by (simp add: slice_nonneg slice_from_nonneg)

lemma slice_from_nonempty: "0 \<le> c \<Longrightarrow> c < rat_of_nat (length t) \<Longrightarrow> slice_from t c \<noteq> []"
  using floor_nat_below [of c "length t"] by (simp add: slice_from_nonneg)

lemma slice_nonempty:
  assumes "0 \<le> c" "whole c" "whole i" "c < i" "i \<le> of_nat (length t)"
  shows "slice t c i \<noteq> []"
proof -
  from assms(2) obtain a where c: "c = of_int a" unfolding whole_iff by (rule Ints_cases)
  from assms(3) obtain b where i: "i = of_int b" unfolding whole_iff by (rule Ints_cases)
  have len: "(of_nat (length t) :: rat) = of_int (int (length t))" by simp
  have "0 \<le> a" "a < b" "b \<le> int (length t)"
    using assms(1,4,5) unfolding c i len of_int_le_iff of_int_less_iff of_int_0_le_iff
    by blast+
  then have "nat a < nat b" "nat a < length t" by linarith+
  then show ?thesis using assms(1,4) unfolding c i by (simp add: slice_nonneg)
qed

section \<open>The sweep\<close>

lemma sweep_append: "sweep h t s (xs @ ys) = sweep h t (sweep h t s xs) ys"
  by (induction xs arbitrary: s) simp_all

lemma cursor_step: "cursor (step h t s m) = max (cursor s) (idx m)"
  by (auto simp: step_def Let_def)

lemma stack_step_eq:
  "stack (step h t s m) =
     (if is_open m then stack s @ [issue m] else filter (\<lambda>x. x \<noteq> issue m) (stack s))"
  by (auto simp: step_def Let_def)

lemma segs_step:
  "segs (step h t s m) =
     segs s @ (if cursor s < idx m then [segment_of h (stack s) (slice t (cursor s) (idx m))] else [])"
  by (auto simp: step_def Let_def)

lemma stack_step: "set (stack (step h t s m)) \<subseteq> insert (issue m) (set (stack s))"
  by (auto simp: step_def Let_def)

lemma stack_sweep:
  "set (stack s) \<subseteq> R \<Longrightarrow> \<forall>m \<in> set ms. issue m \<in> R \<Longrightarrow> set (stack (sweep h t s ms)) \<subseteq> R"
proof (induction ms arbitrary: s)
  case Nil
  then show ?case by simp
next
  case (Cons m ms)
  have "set (stack (step h t s m)) \<subseteq> R"
    using stack_step [of h t s m] Cons.prems by auto
  then show ?case using Cons.IH [of "step h t s m"] Cons.prems(2) by simp
qed

lemma cursor_sweep_nonneg: "0 \<le> cursor s \<Longrightarrow> 0 \<le> cursor (sweep h t s ms)"
  by (induction ms arbitrary: s) (simp_all add: cursor_step)

lemma cursor_sweep: "cursor (sweep h t s ms) = cursor_after (cursor s) ms"
  by (induction ms arbitrary: s) (simp_all add: cursor_after_def cursor_step)

lemma stack_sweep_after: "stack (sweep h t s ms) = stack_after (stack s) ms"
  by (induction ms arbitrary: s) (simp_all add: stack_after_def stack_step_eq)

lemma sweep_no_push:
  "\<forall>m \<in> set ms. idx m \<le> cursor s \<Longrightarrow>
   segs (sweep h t s ms) = segs s \<and> cursor (sweep h t s ms) = cursor s"
proof (induction ms arbitrary: s)
  case Nil
  show ?case by simp
next
  case (Cons m ms)
  have "segs (step h t s m) = segs s" "cursor (step h t s m) = cursor s"
    using Cons.prems by (simp_all add: segs_step cursor_step max_def)
  then show ?case using Cons.IH [of "step h t s m"] Cons.prems by simp
qed

lemma sweep_group:
  assumes "\<forall>m \<in> set ms. idx m = p" "ms \<noteq> []"
  shows "segs (sweep h t s ms) =
           segs s @ (if cursor s < p then [segment_of h (stack s) (slice t (cursor s) p)] else [])"
    and "cursor (sweep h t s ms) = max (cursor s) p"
proof -
  obtain m ms' where ms: "ms = m # ms'" using assms(2) by (cases ms) auto
  let ?s1 = "step h t s m"
  have m: "idx m = p" using assms(1) ms by simp
  have "\<forall>m \<in> set ms'. idx m \<le> cursor ?s1"
    using assms(1) ms by (simp add: cursor_step)
  from sweep_no_push [OF this]
  have "segs (sweep h t s ms) = segs ?s1" "cursor (sweep h t s ms) = cursor ?s1"
    by (simp_all add: ms)
  then show "segs (sweep h t s ms) =
           segs s @ (if cursor s < p then [segment_of h (stack s) (slice t (cursor s) p)] else [])"
    and "cursor (sweep h t s ms) = max (cursor s) p"
    by (simp_all add: segs_step cursor_step m)
qed

lemma step_prefixed: "step h t (prefixed pre s) m = prefixed pre (step h t s m)"
  by (simp add: step_def prefixed_def Let_def)

lemma sweep_prefixed: "sweep h t (prefixed pre s) ms = prefixed pre (sweep h t s ms)"
  by (induction ms arbitrary: s) (simp_all add: step_prefixed)

lemma finish_prefixed: "finish h t (prefixed pre s) = pre @ finish h t s"
  by (simp add: finish_def prefixed_def)

lemma finish_sweep_rest:
  "finish h t (sweep h t s ms) = segs s @ rest h t (cursor s) (stack s) ms"
proof -
  have "s = prefixed (segs s) \<lparr>segs = [], cursor = cursor s, stack = stack s\<rparr>"
    by (simp add: prefixed_def)
  then have "finish h t (sweep h t s ms) =
     finish h t (sweep h t (prefixed (segs s) \<lparr>segs = [], cursor = cursor s, stack = stack s\<rparr>) ms)"
    by simp
  then show ?thesis
    unfolding sweep_prefixed finish_prefixed rest_def .
qed

lemma rest_Nil:
  "rest h t c st [] =
     (if c < of_nat (length t) then [segment_of h st (slice_from t c)] else [])"
  by (simp add: rest_def finish_def)

lemma rest_Cons:
  "rest h t c st (m # ms) =
     (if c < idx m then [segment_of h st (slice t c (idx m))] else []) @
     rest h t (max c (idx m)) (stack_after st [m]) ms"
proof -
  let ?s = "\<lparr>segs = [], cursor = c, stack = st\<rparr>"
  have "rest h t c st (m # ms) = finish h t (sweep h t (step h t ?s m) ms)"
    by (simp add: rest_def)
  also have "\<dots> = segs (step h t ?s m) @
       rest h t (cursor (step h t ?s m)) (stack (step h t ?s m)) ms"
    by (rule finish_sweep_rest)
  finally show ?thesis
    by (simp add: segs_step cursor_step stack_step_eq stack_after_def)
qed

section \<open>The open annotations\<close>

lemma stack_after_append: "stack_after st (xs @ ys) = stack_after (stack_after st xs) ys"
  by (simp add: stack_after_def)

lemma stack_after_opens: "\<forall>m \<in> set ms. is_open m \<Longrightarrow> stack_after st ms = st @ map issue ms"
  by (induction ms arbitrary: st) (simp_all add: stack_after_def)

lemma stack_after_closes:
  "\<forall>m \<in> set ms. \<not> is_open m \<Longrightarrow>
   stack_after st ms = filter (\<lambda>x. x \<notin> issue ` set ms) st"
proof (induction ms arbitrary: st)
  case Nil
  show ?case by (simp add: stack_after_def)
next
  case (Cons m ms)
  have "stack_after st (m # ms) = stack_after (filter (\<lambda>x. x \<noteq> issue m) st) ms"
    using Cons.prems by (simp add: stack_after_def)
  also have "\<dots> = filter (\<lambda>x. x \<notin> issue ` set ms) (filter (\<lambda>x. x \<noteq> issue m) st)"
    using Cons by simp
  also have "\<dots> = filter (\<lambda>x. x \<notin> issue ` set (m # ms)) st"
    unfolding filter_filter by (rule filter_cong) auto
  finally show ?case .
qed

lemma stack_after_group:
  "stack_after st (sort_by marker_cmp (filter (\<lambda>m. idx m = p) (markers_of h issues))) =
     filter (\<lambda>x. \<not> (x \<in> set issues \<and> issue_end (h x) = p))
       (st @ filter (\<lambda>i. issue_start (h i) = p) issues)"
proof -
  let ?G = "filter (\<lambda>m. idx m = p) (markers_of h issues)"
  have srt: "sort_by marker_cmp ?G = filter is_open ?G @ filter (\<lambda>m. \<not> is_open m) ?G"
    by (rule sorted_markers_partition_open [where p = p]) simp
  have opens: "map issue (filter is_open ?G) = filter (\<lambda>i. issue_start (h i) = p) issues"
    unfolding opens_of_markers [symmetric] by (simp add: conj_commute)
  have "stack_after st (sort_by marker_cmp ?G) =
        filter (\<lambda>x. x \<notin> issue ` set (filter (\<lambda>m. \<not> is_open m) ?G)) (st @ map issue (filter is_open ?G))"
    unfolding srt stack_after_append by (simp add: stack_after_opens stack_after_closes)
  then show ?thesis unfolding closers_of_markers opens by simp
qed

lemma stack_after_group_degenerate:
  assumes deg: "issue_start (h a) = p" "issue_end (h a) = p" and st: "a \<notin> set st"
  shows "stack_after st (sort_by marker_cmp (filter (\<lambda>m. idx m = p) (markers_of h (xs @ a # ys)))) =
         stack_after st (sort_by marker_cmp (filter (\<lambda>m. idx m = p) (markers_of h (xs @ ys))))"
proof -
  let ?F = "filter (\<lambda>i. issue_start (h i) = p)"
  have "filter (\<lambda>x. \<not> (x \<in> set (xs @ a # ys) \<and> issue_end (h x) = p)) (st @ ?F (xs @ a # ys)) =
        filter (\<lambda>x. \<not> (x \<in> set (xs @ a # ys) \<and> issue_end (h x) = p)) (st @ ?F (xs @ ys))"
    using deg by simp
  also have "\<dots> = filter (\<lambda>x. \<not> (x \<in> set (xs @ ys) \<and> issue_end (h x) = p)) (st @ ?F (xs @ ys))"
  proof (rule filter_cong [OF refl])
    fix x assume "x \<in> set (st @ ?F (xs @ ys))"
    then have "x = a \<Longrightarrow> a \<in> set (xs @ ys)" using st by auto
    then show "(\<not> (x \<in> set (xs @ a # ys) \<and> issue_end (h x) = p)) =
               (\<not> (x \<in> set (xs @ ys) \<and> issue_end (h x) = p))"
      using deg by auto
  qed
  finally show ?thesis unfolding stack_after_group .
qed

lemma still_open_iff:
  "still_open ms r \<longleftrightarrow>
     (\<exists>i < length ms. is_open (ms ! i) \<and> issue (ms ! i) = r \<and>
        (\<forall>j < length ms. i < j \<longrightarrow> is_open (ms ! j) \<or> issue (ms ! j) \<noteq> r))"
  unfolding still_open_def Bex_def Ball_def lessThan_iff greaterThanLessThan_iff
  by (rule ex_cong1) blast

lemma still_open_snoc:
  "still_open (ms @ [m]) r \<longleftrightarrow>
     (if is_open m then still_open ms r \<or> issue m = r else still_open ms r \<and> issue m \<noteq> r)"
proof -
  let ?n = "length ms"
  have split: "(\<forall>j < Suc ?n. P j) \<longleftrightarrow> (\<forall>j < ?n. P j) \<and> P ?n" for P
    by (auto simp: less_Suc_eq)
  have splitE: "(\<exists>j < Suc ?n. P j) \<longleftrightarrow> (\<exists>j < ?n. P j) \<or> P ?n" for P
    by (auto simp: less_Suc_eq)
  have "still_open (ms @ [m]) r \<longleftrightarrow>
     (\<exists>i < ?n. is_open (ms ! i) \<and> issue (ms ! i) = r \<and>
        (\<forall>j < ?n. i < j \<longrightarrow> is_open (ms ! j) \<or> issue (ms ! j) \<noteq> r) \<and>
        (is_open m \<or> issue m \<noteq> r)) \<or>
     (is_open m \<and> issue m = r)"
    unfolding still_open_iff by (simp add: split splitE nth_append cong: conj_cong)
  then show ?thesis unfolding still_open_iff by auto
qed

lemma set_stack_after: "r \<in> set (stack_after [] ms) \<longleftrightarrow> still_open ms r"
proof (induction ms rule: rev_induct)
  case Nil
  show ?case by (simp add: stack_after_def still_open_def)
next
  case (snoc m ms)
  have "stack_after [] (ms @ [m]) =
     (if is_open m then stack_after [] ms @ [issue m]
      else filter (\<lambda>x. x \<noteq> issue m) (stack_after [] ms))"
    by (simp add: stack_after_def)
  then show ?case using snoc.IH by (auto simp: still_open_snoc)
qed

section \<open>Empty annotation list\<close>

text \<open>
  C9. With no annotations the output is the single segment holding the whole
  text, tagged plain, and it is empty when the text is empty.
\<close>

theorem buildSegments_no_issues:
  "buildSegments h text [] =
     (if text = [] then []
      else [\<lparr>seg_text = text, seg_type = Plain, seg_tip = None\<rparr>])"
  by (simp add: buildSegments_def sort_by_def finish_def init_def segment_of_def active_def
      slice_from_def slice_index_def ToInteger_def)

section \<open>Reconstruction\<close>

lemma covered_step: "covered t s \<Longrightarrow> covered t (step h t s m)"
  by (auto simp: covered_def step_def Let_def texts_def segment_of_def take_slice)

lemma covered_sweep: "covered t s \<Longrightarrow> covered t (sweep h t s ms)"
  by (induction ms arbitrary: s) (simp_all add: covered_step)

lemma covered_finish: "covered t s \<Longrightarrow> texts (finish h t s) = t"
  using floor_nat_length [of "length t" "cursor s"]
  by (auto simp: covered_def finish_def texts_def segment_of_def slice_from_nonneg)

text \<open>
  C1. For every text and every annotation list, the texts of the returned
  segments, concatenated in output order, are exactly the input text.
\<close>

theorem buildSegments_reconstruction:
  "concat (map seg_text (buildSegments h text issues)) = text"
proof -
  have "covered text init" by (simp add: covered_def init_def texts_def)
  then have "covered text (sweep h text init (sort_by marker_cmp (markers_of h issues)))"
    by (rule covered_sweep)
  then show ?thesis
    unfolding buildSegments_def by (simp add: covered_finish [unfolded texts_def])
qed

section \<open>Tips\<close>

lemma note_of_segment_of:
  "(seg_type (segment_of h st txt), seg_tip (segment_of h st txt)) = note_of h (last_added st)"
  by (cases st rule: rev_cases) (simp_all add: segment_of_def active_def note_of_def last_added_def)

lemma tags_append: "tags (xs @ ys) = tags xs @ tags ys"
  by (simp add: tags_def)

lemma tags_segment_of: "tags [segment_of h st txt] = [note_of h (last_added st)]"
  by (simp add: tags_def note_of_segment_of)

lemma governing_at_old: "k < length ms \<Longrightarrow> governing_at (ms @ [m]) k = governing_at ms k"
  by (simp add: governing_at_def nth_append)

lemma governing_at_new:
  "governing_at (ms @ [m]) (length ms) =
     (if cursor_after 0 ms < idx m then [last_added (stack_after [] ms)] else [])"
  by (simp add: governing_at_def)

lemma tags_sweep:
  "tags (segs (sweep h t init ms)) =
     map (note_of h) (concat (map (governing_at ms) [0..<length ms]))"
proof (induction ms rule: rev_induct)
  case Nil
  show ?case by (simp add: init_def tags_def)
next
  case (snoc m ms)
  let ?s = "sweep h t init ms"
  have c: "cursor ?s = cursor_after 0 ms" and st: "stack ?s = stack_after [] ms"
    by (simp_all add: cursor_sweep stack_sweep_after init_def)
  have old: "map (governing_at (ms @ [m])) [0..<length ms] = map (governing_at ms) [0..<length ms]"
    by (rule map_cong) (simp_all add: governing_at_old)
  have "tags (segs (step h t ?s m)) =
        tags (segs ?s) @ map (note_of h) (governing_at (ms @ [m]) (length ms))"
    unfolding governing_at_new segs_step c st
    by (simp add: tags_append tags_segment_of) (simp add: tags_def)
  then show ?case
    using snoc.IH by (simp add: sweep_append old)
qed

lemma tags_buildSegments:
  "tags (buildSegments h text issues) =
     map (note_of h) (governing text (sort_by marker_cmp (markers_of h issues)))"
proof -
  let ?ms = "sort_by marker_cmp (markers_of h issues)"
  let ?s = "sweep h text init ?ms"
  have c: "cursor ?s = cursor_after 0 ?ms" and st: "stack ?s = stack_after [] ?ms"
    by (simp_all add: cursor_sweep stack_sweep_after init_def)
  have "tags (finish h text ?s) =
        tags (segs ?s) @
        map (note_of h) (if cursor_after 0 ?ms < of_nat (length text)
                         then [last_added (stack_after [] ?ms)] else [])"
    by (simp add: finish_def tags_append tags_segment_of c st)
  then show ?thesis
    by (simp add: buildSegments_def governing_def tags_sweep)
qed

lemma governed_segment_of:
  assumes "set st \<subseteq> set issues"
  shows "governed h issues (segment_of h st txt)"
proof (cases "st = []")
  case True
  then show ?thesis by (simp add: governed_def segment_of_def active_def)
next
  case False
  then have "last st \<in> set issues" using assms last_in_set by blast
  then show ?thesis using False by (auto simp: governed_def segment_of_def active_def)
qed

lemma tagged_step:
  assumes "tagged h issues s" "issue m \<in> set issues"
  shows "tagged h issues (step h t s m)"
  using assms by (auto simp: tagged_def step_def Let_def governed_segment_of)

lemma tagged_sweep:
  "tagged h issues s \<Longrightarrow> \<forall>m \<in> set ms. issue m \<in> set issues \<Longrightarrow> tagged h issues (sweep h t s ms)"
  by (induction ms arbitrary: s) (simp_all add: tagged_step)

lemma tagged_finish:
  "tagged h issues s \<Longrightarrow> seg \<in> set (finish h t s) \<Longrightarrow> governed h issues seg"
  by (auto simp: tagged_def finish_def governed_segment_of split: if_splits)

text \<open>
  C10. The types and tips of the output segments are, segment by segment, those
  of the governing annotations: each segment carries the type and exactly the
  tip (possibly none) of the annotation that was last added among those open
  when it was pushed, and is plain without tip when none was open.  So every
  segment is plain without tip or agrees in type and tip with one annotation of
  the input; and the open annotations are exactly those opened and not closed
  since.
\<close>

theorem segments_carry_tip:
  "map (\<lambda>seg. (seg_type seg, seg_tip seg)) (buildSegments h text issues) =
     map (note_of h) (governing text (sort_by marker_cmp (markers_of h issues))) \<and>
   (\<forall>seg \<in> set (buildSegments h text issues). governed h issues seg) \<and>
   (r \<in> set (stack_after [] ms) \<longleftrightarrow> still_open ms r)"
proof (intro conjI ballI)
  show "r \<in> set (stack_after [] ms) \<longleftrightarrow> still_open ms r"
    by (rule set_stack_after)
next
  show "map (\<lambda>seg. (seg_type seg, seg_tip seg)) (buildSegments h text issues) =
     map (note_of h) (governing text (sort_by marker_cmp (markers_of h issues)))"
    using tags_buildSegments [of h "text" issues] by (simp add: tags_def)
next
  fix seg assume seg: "seg \<in> set (buildSegments h text issues)"
  let ?ms = "sort_by marker_cmp (markers_of h issues)"
  have "tagged h issues init" by (simp add: tagged_def init_def)
  moreover have "\<forall>m \<in> set ?ms. issue m \<in> set issues"
    by (simp add: set_sorted_markers issue_markers_of)
  ultimately have "tagged h issues (sweep h text init ?ms)" by (rule tagged_sweep)
  then show "governed h issues seg"
    using seg unfolding buildSegments_def by (rule tagged_finish)
qed

lemma governing_notes_example:
  "map (note_of store_notes)
     (governing ''0123456789abcdefgh'' (sort_by marker_cmp (markers_of store_notes [0, Suc 0]))) =
   [(OfIssue Grammar, Some ''first''), (OfIssue Grammar, Some ''second''),
    (OfIssue Grammar, Some ''second''), (Plain, None)]"
  by (simp add: governing_def governing_at_def sort_by_def marker_cmp_def Number_def
      store_notes_def cursor_after_def stack_after_def last_added_def note_of_def upt_rec)

theorem segments_carry_tip_witness:
  "map (\<lambda>seg. (seg_type seg, seg_tip seg))
     (buildSegments store_notes ''0123456789abcdefgh'' [0, Suc 0]) =
   [(OfIssue Grammar, Some ''first''), (OfIssue Grammar, Some ''second''),
    (OfIssue Grammar, Some ''second''), (Plain, None)] \<and>
   list_all (governed store_notes [0, Suc 0])
     (buildSegments store_notes ''0123456789abcdefgh'' [0, Suc 0])"
proof -
  note carried = segments_carry_tip [of store_notes "''0123456789abcdefgh''" "[0, Suc 0]"]
  show ?thesis
    using carried [THEN conjunct1, unfolded governing_notes_example]
      carried [THEN conjunct2, THEN conjunct1]
    by (simp only: list_all_iff simp_thms)
qed

section \<open>Empty segments\<close>

lemma solid_step:
  assumes "solid s" "whole (idx m)" "idx m \<le> of_nat (length t)"
  shows "solid (step h t s m)"
  using assms by (auto simp: solid_def step_def Let_def segment_of_def slice_nonempty whole_max)

lemma solid_sweep:
  "solid s \<Longrightarrow> \<forall>m \<in> set ms. whole (idx m) \<and> idx m \<le> of_nat (length t) \<Longrightarrow>
   solid (sweep h t s ms)"
  by (induction ms arbitrary: s) (simp_all add: solid_step)

lemma solid_finish: "solid s \<Longrightarrow> seg \<in> set (finish h t s) \<Longrightarrow> seg_text seg \<noteq> []"
  by (auto simp: solid_def finish_def segment_of_def slice_from_nonempty split: if_splits)

lemma within_text_markers:
  "within_text h t issues \<Longrightarrow> m \<in> set (markers_of h issues) \<Longrightarrow>
   whole (idx m) \<and> idx m \<le> of_nat (length t)"
  by (induction issues) (auto simp: within_text_def)

lemma solid_sorted_markers:
  "within_text h t issues \<Longrightarrow> solid (sweep h t init (sort_by marker_cmp (markers_of h issues)))"
  by (intro solid_sweep)
    (simp_all add: solid_def init_def whole_zero set_sorted_markers within_text_markers)

text \<open>
  An annotation that starts at or beyond the end of the text makes the loop push
  a segment with an empty text: on \<open>"abc"\<close> with one annotation over
  \<open>[5, 10)\<close> the marker at 10 finds the cursor at 5 and pushes
  \<open>"abc".slice(5, 10)\<close>.  So do two positions with the same integer part: on
  \<open>"abcdef"\<close> with one annotation over \<open>[1.5, 1.7)\<close> the marker at 1.7 pushes
  \<open>"abcdef".slice(1.5, 1.7)\<close>.
\<close>

theorem empty_segment_counterexample:
  "\<not> (\<forall>seg \<in> set (buildSegments store_beyond ''abc'' [0]). seg_text seg \<noteq> []) \<and>
   \<not> (\<forall>seg \<in> set (buildSegments store_fraction ''abcdef'' [0]). seg_text seg \<noteq> [])"
  by (simp add: buildSegments_def sort_by_def marker_cmp_def Number_def store_beyond_def
      store_fraction_def init_def step_def finish_def segment_of_def active_def slice_def
      slice_from_def slice_index_def ToInteger_def Let_def floor_numeral_div)

text \<open>
  C7, amended. When every start and end is an integer and none is beyond the
  length of the text, every segment of the output has a non-empty text.
\<close>

theorem no_empty_segment_within_text:
  assumes "within_text h text issues"
  shows "\<forall>seg \<in> set (buildSegments h text issues). seg_text seg \<noteq> []"
proof
  fix seg assume "seg \<in> set (buildSegments h text issues)"
  then show "seg_text seg \<noteq> []"
    unfolding buildSegments_def using solid_sorted_markers [OF assms] by (intro solid_finish)
qed

theorem no_empty_segment_witness:
  "within_text store_teh ''Teh cat was nice.'' [0] \<and>
   list_all (\<lambda>seg. seg_text seg \<noteq> []) (buildSegments store_teh ''Teh cat was nice.'' [0])"
  using no_empty_segment_within_text [of store_teh "''Teh cat was nice.''" "[0]"]
  by (simp add: within_text_def store_teh_def list_all_iff whole_iff)

section \<open>Ties and determinism\<close>

lemma segment_of_cong: "\<forall>i \<in> set st. h' i = h i \<Longrightarrow> segment_of h' st txt = segment_of h st txt"
  by (simp add: segment_of_def active_def)

lemma step_cong: "\<forall>i \<in> set (stack s). h' i = h i \<Longrightarrow> step h' t s m = step h t s m"
  using segment_of_cong [of "stack s" h' h] by (simp add: step_def)

lemma sweep_cong:
  assumes "\<forall>i \<in> R. h' i = h i"
  shows "set (stack s) \<subseteq> R \<Longrightarrow> \<forall>m \<in> set ms. issue m \<in> R \<Longrightarrow> sweep h' t s ms = sweep h t s ms"
proof (induction ms arbitrary: s)
  case Nil
  show ?case by simp
next
  case (Cons m ms)
  have eq: "step h' t s m = step h t s m"
    using assms Cons.prems(1) by (intro step_cong) blast
  have "set (stack (step h t s m)) \<subseteq> R"
    using stack_step [of h t s m] Cons.prems by auto
  then show ?case using Cons.IH [of "step h t s m"] Cons.prems(2) eq by simp
qed

lemma finish_cong: "\<forall>i \<in> set (stack s). h' i = h i \<Longrightarrow> finish h' t s = finish h t s"
  using segment_of_cong [of "stack s" h' h] by (simp add: finish_def)

lemma buildSegments_cong:
  assumes "\<forall>i \<in> set issues. h' i = h i"
  shows "buildSegments h' text issues = buildSegments h text issues"
proof -
  let ?ms = "sort_by marker_cmp (markers_of h issues)"
  have ms: "\<forall>m \<in> set ?ms. issue m \<in> set issues"
    by (simp add: set_sorted_markers issue_markers_of)
  have st0: "set (stack init) \<subseteq> set issues" by (simp add: init_def)
  have "sweep h' text init ?ms = sweep h text init ?ms"
    using assms st0 ms by (rule sweep_cong)
  moreover have "set (stack (sweep h text init ?ms)) \<subseteq> set issues"
    using st0 ms by (rule stack_sweep)
  then have "finish h' text (sweep h text init ?ms) = finish h text (sweep h text init ?ms)"
    using assms by (intro finish_cong) blast
  ultimately show ?thesis
    by (simp add: buildSegments_def markers_of_cong [OF assms])
qed

text \<open>
  C8. In the sorted markers, the opening markers at one position are those of
  the annotations starting there, in the order of the input list, and likewise
  the closing markers; and the output depends only on the text, the list and the
  annotations the list refers to.
\<close>

theorem ties_keep_input_order:
  "map issue (filter (\<lambda>m. idx m = p \<and> is_open m) (sort_by marker_cmp (markers_of h issues))) =
     filter (\<lambda>i. issue_start (h i) = p) issues \<and>
   map issue (filter (\<lambda>m. idx m = p \<and> \<not> is_open m) (sort_by marker_cmp (markers_of h issues))) =
     filter (\<lambda>i. issue_end (h i) = p) issues \<and>
   ((\<forall>i \<in> set issues. h' i = h i) \<longrightarrow>
      buildSegments h' text issues = buildSegments h text issues)"
proof (intro conjI impI)
  show "map issue (filter (\<lambda>m. idx m = p \<and> is_open m) (sort_by marker_cmp (markers_of h issues))) =
     filter (\<lambda>i. issue_start (h i) = p) issues"
    using sorted_markers_stable [of "(p, False)" "markers_of h issues"]
    by (simp add: key_open opens_of_markers)
  show "map issue (filter (\<lambda>m. idx m = p \<and> \<not> is_open m) (sort_by marker_cmp (markers_of h issues))) =
     filter (\<lambda>i. issue_end (h i) = p) issues"
    using sorted_markers_stable [of "(p, True)" "markers_of h issues"]
    by (simp add: key_close closes_of_markers)
  show "buildSegments h' text issues = buildSegments h text issues"
    if "\<forall>i \<in> set issues. h' i = h i"
    using that by (rule buildSegments_cong)
qed

theorem ties_keep_input_order_witness:
  "map issue (filter (\<lambda>m. idx m = 2 \<and> is_open m)
      (sort_by marker_cmp (markers_of store_ties [0, Suc 0, 2]))) = [0, 2] \<and>
   map issue (filter (\<lambda>m. idx m = 4 \<and> \<not> is_open m)
      (sort_by marker_cmp (markers_of store_ties [0, Suc 0, 2]))) = [0, Suc 0, 2] \<and>
   buildSegments (store_ties(7 := \<lparr>issue_type = Clarity, issue_start = 1, issue_end = 9, issue_tip = None\<rparr>))
      ''abcdef'' [0, Suc 0, 2] =
   buildSegments store_ties ''abcdef'' [0, Suc 0, 2]"
proof -
  let ?h' = "store_ties(7 := \<lparr>issue_type = Clarity, issue_start = 1, issue_end = 9, issue_tip = None\<rparr>)"
  have agree: "\<forall>i \<in> set [0, Suc 0, 2]. ?h' i = store_ties i" by simp
  have starts: "filter (\<lambda>i. issue_start (store_ties i) = 2) [0, Suc 0, 2] = [0, 2]"
    and ends: "filter (\<lambda>i. issue_end (store_ties i) = 4) [0, Suc 0, 2] = [0, Suc 0, 2]"
    by (simp_all add: store_ties_def)
  show ?thesis
    using ties_keep_input_order [of 2 store_ties "[0, Suc 0, 2]" ?h' "''abcdef''"]
      ties_keep_input_order [of 4 store_ties "[0, Suc 0, 2]" ?h' "''abcdef''"] agree
    unfolding starts ends by blast
qed

section \<open>Crossing, touching and nested annotations\<close>

text \<open>
  C2. A closing marker removes the annotation it refers to from the stack,
  wherever it sits, and keeps the others in their order: in every state the
  stack after it is the stack without that reference, and a stack
  \<open>xs @ r # ys\<close> with \<open>r\<close> nowhere else becomes \<open>xs @ ys\<close>.  For \<open>A\<close> over
  \<open>[0, 10)\<close> and \<open>B\<close> over \<open>[5, 15)\<close> on a text of length at least 15, the
  third marker closes \<open>A\<close>, which is not the most recently opened annotation:
  the stack \<open>[A, B]\<close> becomes \<open>[B]\<close>, and the segment over \<open>[10, 15)\<close> carries
  the type of \<open>B\<close>.
\<close>

theorem crossing_overlap:
  assumes ha: "h a = \<lparr>issue_type = ka, issue_start = 0, issue_end = 10, issue_tip = ta\<rparr>"
    and hb: "h b = \<lparr>issue_type = kb, issue_start = 5, issue_end = 15, issue_tip = tb\<rparr>"
    and ab: "a \<noteq> b"
    and len: "15 \<le> length text"
  shows "(\<not> is_open m \<longrightarrow>
        stack (step h text s m) = filter (\<lambda>x. x \<noteq> issue m) (stack s)) \<and>
     (\<not> is_open m \<and> stack s = xs @ issue m # ys \<and> issue m \<notin> set xs \<and> issue m \<notin> set ys \<longrightarrow>
        stack (step h text s m) = xs @ ys) \<and>
     sort_by marker_cmp (markers_of h [a, b]) =
       [\<lparr>idx = 0, issue = a, is_open = True\<rparr>, \<lparr>idx = 5, issue = b, is_open = True\<rparr>,
        \<lparr>idx = 10, issue = a, is_open = False\<rparr>, \<lparr>idx = 15, issue = b, is_open = False\<rparr>] \<and>
     stack (sweep h text init (take 2 (sort_by marker_cmp (markers_of h [a, b])))) = [a, b] \<and>
     stack (sweep h text init (take 3 (sort_by marker_cmp (markers_of h [a, b])))) = [b] \<and>
     buildSegments h text [a, b] =
       [\<lparr>seg_text = take 5 text, seg_type = OfIssue ka, seg_tip = ta\<rparr>,
        \<lparr>seg_text = take 5 (drop 5 text), seg_type = OfIssue kb, seg_tip = tb\<rparr>,
        \<lparr>seg_text = take 5 (drop 10 text), seg_type = OfIssue kb, seg_tip = tb\<rparr>]
       @ (if 15 < length text
          then [\<lparr>seg_text = drop 15 text, seg_type = Plain, seg_tip = None\<rparr>] else [])"
proof -
  have srt: "sort_by marker_cmp (markers_of h [a, b]) =
       [\<lparr>idx = 0, issue = a, is_open = True\<rparr>, \<lparr>idx = 5, issue = b, is_open = True\<rparr>,
        \<lparr>idx = 10, issue = a, is_open = False\<rparr>, \<lparr>idx = 15, issue = b, is_open = False\<rparr>]"
    by (simp add: sort_by_def marker_cmp_def Number_def ha hb)
  have close: "stack (step h text s m) = filter (\<lambda>x. x \<noteq> issue m) (stack s)" if "\<not> is_open m"
    using that by (simp add: stack_step_eq)
  have remove: "stack (step h text s m) = xs @ ys"
    if "\<not> is_open m \<and> stack s = xs @ issue m # ys \<and> issue m \<notin> set xs \<and> issue m \<notin> set ys"
  proof -
    have "filter (\<lambda>x. x \<noteq> issue m) xs = xs" "filter (\<lambda>x. x \<noteq> issue m) ys = ys"
      using that by (auto simp: filter_id_conv)
    then show ?thesis using that by (simp add: stack_step_eq)
  qed
  have run: "stack (sweep h text init (take 2 (sort_by marker_cmp (markers_of h [a, b])))) = [a, b] \<and>
     stack (sweep h text init (take 3 (sort_by marker_cmp (markers_of h [a, b])))) = [b] \<and>
     buildSegments h text [a, b] =
       [\<lparr>seg_text = take 5 text, seg_type = OfIssue ka, seg_tip = ta\<rparr>,
        \<lparr>seg_text = take 5 (drop 5 text), seg_type = OfIssue kb, seg_tip = tb\<rparr>,
        \<lparr>seg_text = take 5 (drop 10 text), seg_type = OfIssue kb, seg_tip = tb\<rparr>]
       @ (if 15 < length text
          then [\<lparr>seg_text = drop 15 text, seg_type = Plain, seg_tip = None\<rparr>] else [])"
    unfolding buildSegments_def srt using ab len
    by (simp add: init_def step_def finish_def segment_of_def active_def slice_nonneg
        slice_from_nonneg Let_def ha hb)
  show ?thesis using srt close remove run by blast
qed

theorem crossing_overlap_witness:
  "buildSegments store_crossing ''0123456789abcdefgh'' [0, Suc 0] =
     [\<lparr>seg_text = ''01234'', seg_type = OfIssue Grammar, seg_tip = None\<rparr>,
      \<lparr>seg_text = ''56789'', seg_type = OfIssue Clarity, seg_tip = Some ''Be clearer.''\<rparr>,
      \<lparr>seg_text = ''abcde'', seg_type = OfIssue Clarity, seg_tip = Some ''Be clearer.''\<rparr>,
      \<lparr>seg_text = ''fgh'', seg_type = Plain, seg_tip = None\<rparr>] \<and>
   stack (step store_crossing ''0123456789abcdefgh'' \<lparr>segs = [], cursor = 5, stack = [0, Suc 0, 2]\<rparr>
            \<lparr>idx = 10, issue = 0, is_open = False\<rparr>) = [Suc 0, 2] \<and>
   stack (step store_crossing ''0123456789abcdefgh'' \<lparr>segs = [], cursor = 5, stack = [0, Suc 0, 2]\<rparr>
            \<lparr>idx = 10, issue = Suc 0, is_open = False\<rparr>) = [0, 2]"
proof -
  let ?t = "''0123456789abcdefgh''"
  let ?s = "\<lparr>segs = [], cursor = 5, stack = [0, Suc 0, 2]\<rparr>"
  note run = crossing_overlap [of store_crossing 0 Grammar None "Suc 0" Clarity
      "Some ''Be clearer.''" ?t]
  have "buildSegments store_crossing ?t [0, Suc 0] =
     [\<lparr>seg_text = ''01234'', seg_type = OfIssue Grammar, seg_tip = None\<rparr>,
      \<lparr>seg_text = ''56789'', seg_type = OfIssue Clarity, seg_tip = Some ''Be clearer.''\<rparr>,
      \<lparr>seg_text = ''abcde'', seg_type = OfIssue Clarity, seg_tip = Some ''Be clearer.''\<rparr>,
      \<lparr>seg_text = ''fgh'', seg_type = Plain, seg_tip = None\<rparr>]"
    using run [of "\<lparr>idx = 10, issue = 0, is_open = False\<rparr>" ?s "[]" "[]"]
    by (simp add: store_crossing_def)
  moreover have "stack (step store_crossing ?t ?s \<lparr>idx = 10, issue = 0, is_open = False\<rparr>) = [Suc 0, 2]"
    using run [of "\<lparr>idx = 10, issue = 0, is_open = False\<rparr>" ?s "[]" "[Suc 0, 2]"]
    by (simp add: store_crossing_def)
  moreover have "stack (step store_crossing ?t ?s \<lparr>idx = 10, issue = Suc 0, is_open = False\<rparr>) = [0, 2]"
    using run [of "\<lparr>idx = 10, issue = Suc 0, is_open = False\<rparr>" ?s "[0]" "[2]"]
    by (simp add: store_crossing_def)
  ultimately show ?thesis by blast
qed

text \<open>
  C3. Among sorted markers at one position no closing marker precedes an opening
  one; for \<open>A\<close> over \<open>[0, 5)\<close> and \<open>B\<close> over \<open>[5, 10)\<close> on a text of length at
  least 10 the output over \<open>[0, 10)\<close> is two segments, of the types of \<open>A\<close> and
  of \<open>B\<close>, with no plain segment between them.
\<close>

theorem touching_annotations:
  assumes ha: "h a = \<lparr>issue_type = ka, issue_start = 0, issue_end = 5, issue_tip = ta\<rparr>"
    and hb: "h b = \<lparr>issue_type = kb, issue_start = 5, issue_end = 10, issue_tip = tb\<rparr>"
    and ab: "a \<noteq> b"
    and len: "10 \<le> length text"
  shows "(\<forall>i j. i < j \<and> j < length (sort_by marker_cmp ms) \<and>
            idx (sort_by marker_cmp ms ! i) = idx (sort_by marker_cmp ms ! j) \<and>
            is_open (sort_by marker_cmp ms ! j) \<longrightarrow> is_open (sort_by marker_cmp ms ! i)) \<and>
     buildSegments h text [a, b] =
       [\<lparr>seg_text = take 5 text, seg_type = OfIssue ka, seg_tip = ta\<rparr>,
        \<lparr>seg_text = take 5 (drop 5 text), seg_type = OfIssue kb, seg_tip = tb\<rparr>]
       @ (if 10 < length text
          then [\<lparr>seg_text = drop 10 text, seg_type = Plain, seg_tip = None\<rparr>] else [])"
proof (intro conjI allI impI)
  fix i j
  assume ij: "i < j \<and> j < length (sort_by marker_cmp ms) \<and>
            idx (sort_by marker_cmp ms ! i) = idx (sort_by marker_cmp ms ! j) \<and>
            is_open (sort_by marker_cmp ms ! j)"
  then have "marker_key (sort_by marker_cmp ms ! i) \<le> marker_key (sort_by marker_cmp ms ! j)"
    by (intro sorted_markers_nth) simp_all
  then show "is_open (sort_by marker_cmp ms ! i)"
    using ij by (simp add: marker_key_def less_eq_prod_def)
next
  show "buildSegments h text [a, b] =
       [\<lparr>seg_text = take 5 text, seg_type = OfIssue ka, seg_tip = ta\<rparr>,
        \<lparr>seg_text = take 5 (drop 5 text), seg_type = OfIssue kb, seg_tip = tb\<rparr>]
       @ (if 10 < length text
          then [\<lparr>seg_text = drop 10 text, seg_type = Plain, seg_tip = None\<rparr>] else [])"
    using ab len
    by (simp add: buildSegments_def sort_by_def marker_cmp_def Number_def ha hb init_def step_def
        finish_def segment_of_def active_def slice_nonneg slice_from_nonneg Let_def)
qed

theorem touching_annotations_witness:
  "buildSegments store_touching ''0123456789ab'' [0, Suc 0] =
     [\<lparr>seg_text = ''01234'', seg_type = OfIssue Spell, seg_tip = Some ''Spelling.''\<rparr>,
      \<lparr>seg_text = ''56789'', seg_type = OfIssue Structure, seg_tip = None\<rparr>,
      \<lparr>seg_text = ''ab'', seg_type = Plain, seg_tip = None\<rparr>]"
  using touching_annotations [of store_touching 0 Spell "Some ''Spelling.''" "Suc 0" Structure None
      "''0123456789ab''"]
  by (simp add: store_touching_def)

text \<open>
  C4. A pushed segment, in the loop or after it, carries the type of the last
  element of the stack, or plain on the empty stack; an opened annotation is
  added last and a closed one is removed with the others kept in order.  For
  \<open>A\<close> over \<open>[0, 10)\<close> of type grammar containing \<open>B\<close> over \<open>[3, 6)\<close> of type
  clarity the output is \<open>[0, 3)\<close> grammar, \<open>[3, 6)\<close> clarity, \<open>[6, 10)\<close>
  grammar and a plain remainder.
\<close>

theorem innermost_wins:
  assumes ha: "h a = \<lparr>issue_type = Grammar, issue_start = 0, issue_end = 10, issue_tip = ta\<rparr>"
    and hb: "h b = \<lparr>issue_type = Clarity, issue_start = 3, issue_end = 6, issue_tip = tb\<rparr>"
    and ab: "a \<noteq> b"
    and len: "10 \<le> length text"
  shows "(cursor s < idx m \<longrightarrow>
        segs (step h text s m) = segs s @
          [\<lparr>seg_text = slice text (cursor s) (idx m),
            seg_type = (if stack s = [] then Plain else OfIssue (issue_type (h (last (stack s))))),
            seg_tip = (if stack s = [] then None else issue_tip (h (last (stack s))))\<rparr>]) \<and>
     (cursor s < of_nat (length text) \<longrightarrow>
        finish h text s = segs s @
          [\<lparr>seg_text = slice_from text (cursor s),
            seg_type = (if stack s = [] then Plain else OfIssue (issue_type (h (last (stack s))))),
            seg_tip = (if stack s = [] then None else issue_tip (h (last (stack s))))\<rparr>]) \<and>
     stack (step h text s m) =
       (if is_open m then stack s @ [issue m] else filter (\<lambda>x. x \<noteq> issue m) (stack s)) \<and>
     buildSegments h text [a, b] =
       [\<lparr>seg_text = take 3 text, seg_type = OfIssue Grammar, seg_tip = ta\<rparr>,
        \<lparr>seg_text = take 3 (drop 3 text), seg_type = OfIssue Clarity, seg_tip = tb\<rparr>,
        \<lparr>seg_text = take 4 (drop 6 text), seg_type = OfIssue Grammar, seg_tip = ta\<rparr>]
       @ (if 10 < length text
          then [\<lparr>seg_text = drop 10 text, seg_type = Plain, seg_tip = None\<rparr>] else [])"
proof (intro conjI)
  show "buildSegments h text [a, b] =
       [\<lparr>seg_text = take 3 text, seg_type = OfIssue Grammar, seg_tip = ta\<rparr>,
        \<lparr>seg_text = take 3 (drop 3 text), seg_type = OfIssue Clarity, seg_tip = tb\<rparr>,
        \<lparr>seg_text = take 4 (drop 6 text), seg_type = OfIssue Grammar, seg_tip = ta\<rparr>]
       @ (if 10 < length text
          then [\<lparr>seg_text = drop 10 text, seg_type = Plain, seg_tip = None\<rparr>] else [])"
    using ab len
    by (simp add: buildSegments_def sort_by_def marker_cmp_def Number_def ha hb init_def step_def
        finish_def segment_of_def active_def slice_nonneg slice_from_nonneg Let_def)
qed (simp_all add: step_def finish_def segment_of_def active_def Let_def)

theorem innermost_wins_witness:
  "buildSegments store_nested ''0123456789ab'' [0, Suc 0] =
     [\<lparr>seg_text = ''012'', seg_type = OfIssue Grammar, seg_tip = None\<rparr>,
      \<lparr>seg_text = ''345'', seg_type = OfIssue Clarity, seg_tip = Some ''Be clearer.''\<rparr>,
      \<lparr>seg_text = ''6789'', seg_type = OfIssue Grammar, seg_tip = None\<rparr>,
      \<lparr>seg_text = ''ab'', seg_type = Plain, seg_tip = None\<rparr>]"
  using innermost_wins [of store_nested 0 None "Suc 0" "Some ''Be clearer.''" "''0123456789ab''"]
  by (simp add: store_nested_def)

section \<open>Zero-width annotations\<close>

lemma chars_cut:
  assumes "seg_type Y = seg_type X" "seg_tip Y = seg_tip X"
  shows "chars (pre @ X # Y # post) = chars (pre @ X\<lparr>seg_text := seg_text X @ seg_text Y\<rparr> # post)"
  using assms by (simp add: chars_def)

lemma chars_empty: "seg_text X = [] \<Longrightarrow> chars (ss @ [X]) = chars ss"
  by (simp add: chars_def)

lemma texts_cut:
  assumes "0 \<le> c" "c < p" "texts pre = take (nat \<lfloor>c\<rfloor>) t"
  shows "texts (pre @ [segment_of h st (slice t c p)]) = slice t 0 p"
proof -
  have "texts (pre @ [segment_of h st (slice t c p)]) = take (nat \<lfloor>c\<rfloor>) t @ slice t c p"
    using assms(3) by (simp add: texts_def segment_of_def)
  also have "\<dots> = take (nat \<lfloor>p\<rfloor>) t" using assms by (intro take_slice) simp_all
  also have "\<dots> = slice t 0 p" using assms by (simp add: slice_nonneg)
  finally show ?thesis .
qed

lemma degenerate_rest:
  assumes c: "0 \<le> c" "c < p" and R: "\<forall>m \<in> set R. p < idx m"
  shows "pre @ segment_of h st (slice t c p) # rest h t p st R = pre @ rest h t c st R \<or>
     (\<exists>Y post.
        pre @ segment_of h st (slice t c p) # rest h t p st R =
          pre @ segment_of h st (slice t c p) # Y # post \<and>
        pre @ rest h t c st R =
          pre @ (segment_of h st (slice t c p))
                  \<lparr>seg_text := seg_text (segment_of h st (slice t c p)) @ seg_text Y\<rparr> # post \<and>
        seg_type Y = seg_type (segment_of h st (slice t c p)) \<and>
        seg_tip Y = seg_tip (segment_of h st (slice t c p))) \<or>
     (pre @ segment_of h st (slice t c p) # rest h t p st R =
        (pre @ rest h t c st R) @ [segment_of h st (slice t c p)] \<and>
      seg_text (segment_of h st (slice t c p)) = [] \<and> of_nat (length t) < p)"
proof (cases R)
  case (Cons w R')
  let ?q = "idx w"
  have q: "p < ?q" using R Cons by simp
  then have mx: "max c ?q = ?q" "max p ?q = ?q" "c < ?q" using c by simp_all
  have cut: "slice t c p @ slice t p ?q = slice t c ?q"
    using c q by (intro slice_append) simp_all
  let ?Y = "segment_of h st (slice t p ?q)"
  let ?post = "rest h t ?q (stack_after st [w]) R'"
  have "pre @ segment_of h st (slice t c p) # rest h t p st R =
          pre @ segment_of h st (slice t c p) # ?Y # ?post"
    using q by (simp add: Cons rest_Cons mx)
  moreover have "pre @ rest h t c st R =
          pre @ (segment_of h st (slice t c p))
                  \<lparr>seg_text := seg_text (segment_of h st (slice t c p)) @ seg_text ?Y\<rparr> # ?post"
    using mx(3) by (simp add: Cons rest_Cons mx(1) segment_of_def cut)
  moreover have "seg_type ?Y = seg_type (segment_of h st (slice t c p))"
    "seg_tip ?Y = seg_tip (segment_of h st (slice t c p))"
    by (simp_all add: segment_of_def)
  ultimately show ?thesis by blast
next
  case Nil
  let ?L = "rat_of_nat (length t)"
  consider "p < ?L" | "c < ?L" "?L \<le> p" | "?L \<le> c" by linarith
  then show ?thesis
  proof cases
    case 1
    then have cL: "c < ?L" using c by simp
    let ?Y = "segment_of h st (slice_from t p)"
    have cut: "slice t c p @ slice_from t p = slice_from t c"
      using c by (intro slice_slice_from) simp_all
    have "pre @ segment_of h st (slice t c p) # rest h t p st R =
          pre @ segment_of h st (slice t c p) # ?Y # []"
      using 1 by (simp add: Nil rest_Nil)
    moreover have "pre @ rest h t c st R =
          pre @ (segment_of h st (slice t c p))
                  \<lparr>seg_text := seg_text (segment_of h st (slice t c p)) @ seg_text ?Y\<rparr> # []"
      using cL by (simp add: Nil rest_Nil segment_of_def cut)
    moreover have "seg_type ?Y = seg_type (segment_of h st (slice t c p))"
      "seg_tip ?Y = seg_tip (segment_of h st (slice t c p))"
      by (simp_all add: segment_of_def)
    ultimately show ?thesis by blast
  next
    case 2
    have "slice t c p = slice_from t c" using c 2 by (intro slice_to_end) simp_all
    then have "pre @ segment_of h st (slice t c p) # rest h t p st R = pre @ rest h t c st R"
      using 2 by (simp add: Nil rest_Nil)
    then show ?thesis by blast
  next
    case 3
    then have pL: "?L \<le> p" using c by simp
    have "slice t c p = []" using 3 c by (intro slice_beyond) simp_all
    then have "pre @ segment_of h st (slice t c p) # rest h t p st R =
        (pre @ rest h t c st R) @ [segment_of h st (slice t c p)] \<and>
      seg_text (segment_of h st (slice t c p)) = [] \<and> of_nat (length t) < p"
      using 3 pL c by (simp add: Nil rest_Nil segment_of_def)
    then show ?thesis by blast
  qed
qed

lemma degenerate_outputs:
  assumes deg: "issue_start (h a) = p" "issue_end (h a) = p"
  shows "buildSegments h text (xs @ a # ys) = buildSegments h text (xs @ ys) \<or>
     (\<exists>pre X Y post.
        buildSegments h text (xs @ a # ys) = pre @ X # Y # post \<and>
        buildSegments h text (xs @ ys) = pre @ X\<lparr>seg_text := seg_text X @ seg_text Y\<rparr> # post \<and>
        seg_type Y = seg_type X \<and> seg_tip Y = seg_tip X \<and>
        texts (pre @ [X]) = slice text 0 p) \<or>
     (\<exists>X. buildSegments h text (xs @ a # ys) = buildSegments h text (xs @ ys) @ [X] \<and>
          seg_text X = [] \<and> of_nat (length text) < p)"
proof -
  let ?M' = "markers_of h (xs @ a # ys)" and ?M = "markers_of h (xs @ ys)"
  let ?oa = "\<lparr>idx = issue_start (h a), issue = a, is_open = True\<rparr>"
  define L where "L = sort_by marker_cmp (filter (\<lambda>m. idx m < p) ?M)"
  define G' where "G' = sort_by marker_cmp (filter (\<lambda>m. idx m = p) ?M')"
  define G where "G = sort_by marker_cmp (filter (\<lambda>m. idx m = p) ?M)"
  define R where "R = sort_by marker_cmp (filter (\<lambda>m. p < idx m) ?M)"
  have lt: "filter (\<lambda>m. idx m < p) ?M' = filter (\<lambda>m. idx m < p) ?M"
    and gt: "filter (\<lambda>m. p < idx m) ?M' = filter (\<lambda>m. p < idx m) ?M"
    using deg by (simp_all add: filter_markers_skip)
  have S': "sort_by marker_cmp ?M' = L @ G' @ R"
    using sorted_markers_three_way [of ?M' p] by (simp add: L_def G'_def R_def lt gt)
  have S: "sort_by marker_cmp ?M = L @ G @ R"
    using sorted_markers_three_way [of ?M p] by (simp add: L_def G_def R_def)
  have G'p: "\<forall>m \<in> set G'. idx m = p" and Gp: "\<forall>m \<in> set G. idx m = p"
    and Rp: "\<forall>m \<in> set R. p < idx m"
    by (simp_all add: G'_def G_def R_def set_sorted_markers)
  have "?oa \<in> set G'"
    using deg by (simp add: G'_def set_sorted_markers markers_of_append)
  then have G'ne: "G' \<noteq> []" by auto
  define s where "s = sweep h text init L"
  have La: "\<forall>m \<in> set L. issue m \<in> - {a}"
  proof
    fix m assume "m \<in> set L"
    then have m: "m \<in> set ?M" "idx m < p" by (simp_all add: L_def set_sorted_markers)
    show "issue m \<in> - {a}"
      using idx_markers_of [OF m(1)] m(2) deg by (auto split: if_splits)
  qed
  have "set (stack s) \<subseteq> - {a}"
    unfolding s_def using _ La by (rule stack_sweep) (simp add: init_def)
  then have a: "a \<notin> set (stack s)" by auto
  have cov: "covered text s"
    unfolding s_def by (intro covered_sweep) (simp add: covered_def init_def texts_def)
  then have c: "0 \<le> cursor s" and tx: "texts (segs s) = take (nat \<lfloor>cursor s\<rfloor>) text"
    by (simp_all add: covered_def)
  let ?X = "segment_of h (stack s) (slice text (cursor s) p)"
  define s' where "s' = sweep h text s G'"
  have st': "stack s' = stack_after (stack s) G"
    unfolding s'_def stack_sweep_after G'_def G_def
    using deg a by (rule stack_after_group_degenerate)
  have segs': "segs s' = segs s @ (if cursor s < p then [?X] else [])"
    and c': "cursor s' = max (cursor s) p"
    unfolding s'_def using sweep_group [OF G'p G'ne] by simp_all
  have W: "buildSegments h text (xs @ a # ys) =
      segs s @ (if cursor s < p then [?X] else []) @
      rest h text (max (cursor s) p) (stack_after (stack s) G) R"
    unfolding buildSegments_def S' sweep_append
    by (simp add: finish_sweep_rest segs' c' st' flip: s_def s'_def)
  have O: "buildSegments h text (xs @ ys) =
      segs (sweep h text s G) @
      rest h text (cursor (sweep h text s G)) (stack_after (stack s) G) R"
    unfolding buildSegments_def S sweep_append
    by (simp add: finish_sweep_rest stack_sweep_after flip: s_def)
  show ?thesis
  proof (cases "G = [] \<and> cursor s < p")
    case False
    have "buildSegments h text (xs @ a # ys) = buildSegments h text (xs @ ys)"
    proof (cases "G = []")
      case True
      then have "\<not> cursor s < p" using False by simp
      then show ?thesis unfolding W O using True by (simp add: max_def)
    next
      case ne: False
      show ?thesis unfolding W O using sweep_group [OF Gp ne, of h "text" s] by simp
    qed
    then show ?thesis by blast
  next
    case True
    then have G: "G = []" and cp: "cursor s < p" by simp_all
    have W': "buildSegments h text (xs @ a # ys) = segs s @ ?X # rest h text p (stack s) R"
      unfolding W using cp by (simp add: G stack_after_def max_def)
    have O': "buildSegments h text (xs @ ys) = segs s @ rest h text (cursor s) (stack s) R"
      unfolding O by (simp add: G stack_after_def)
    have cut: "texts (segs s @ [?X]) = slice text 0 p"
      using c cp tx by (rule texts_cut)
    from degenerate_rest [OF c cp Rp, of "segs s" h "stack s" "text"]
    show ?thesis unfolding W' O' using cut by blast
  qed
qed

text \<open>
  A zero-width annotation inside the text cuts the segment it falls in: on
  \<open>"abcdef"\<close> an annotation over \<open>[3, 3)\<close> gives the two plain segments
  \<open>"abc"\<close> and \<open>"def"\<close>, not the one segment of the empty annotation list.
\<close>

theorem degenerate_counterexample:
  "buildSegments store_degenerate ''abcdef'' [0] \<noteq> buildSegments store_degenerate ''abcdef'' []"
  by (simp add: buildSegments_def sort_by_def marker_cmp_def Number_def store_degenerate_def init_def
      step_def finish_def segment_of_def active_def slice_def slice_from_def slice_index_def
      ToInteger_def Let_def)

text \<open>
  C6, amended. A zero-width annotation changes the type and tip of no character
  and adds at most one cut.  The output with it is the output without it, or
  that output with one segment cut in two at the annotation's position, both
  pieces with the type and tip of the segment, all other segments and cuts
  unchanged, or, only when the annotation lies beyond the text, that output
  followed by one segment with an empty text.  This holds for every text and
  list, also when the list holds the same annotation more than once.
\<close>

theorem degenerate_keeps_tagging:
  assumes "issue_start (h a) = issue_end (h a)"
  shows "chars (buildSegments h text (xs @ a # ys)) = chars (buildSegments h text (xs @ ys)) \<and>
     (buildSegments h text (xs @ a # ys) = buildSegments h text (xs @ ys) \<or>
      (\<exists>pre X Y post.
         buildSegments h text (xs @ a # ys) = pre @ X # Y # post \<and>
         buildSegments h text (xs @ ys) = pre @ X\<lparr>seg_text := seg_text X @ seg_text Y\<rparr> # post \<and>
         seg_type Y = seg_type X \<and> seg_tip Y = seg_tip X \<and>
         texts (pre @ [X]) = slice text 0 (issue_start (h a))) \<or>
      (\<exists>X. buildSegments h text (xs @ a # ys) = buildSegments h text (xs @ ys) @ [X] \<and>
           seg_text X = [] \<and> of_nat (length text) < issue_start (h a)))"
proof -
  note cases = degenerate_outputs [of h a "issue_start (h a)" "text" xs ys, OF refl assms [symmetric]]
  have "chars (buildSegments h text (xs @ a # ys)) = chars (buildSegments h text (xs @ ys))"
    using cases by (elim disjE exE conjE) (simp_all add: chars_cut chars_empty)
  then show ?thesis using cases by blast
qed

theorem degenerate_keeps_tagging_witness:
  "issue_start (store_degenerate 0) = issue_end (store_degenerate 0) \<and>
   chars (buildSegments store_degenerate ''abcdef'' [0, Suc 0]) =
   chars (buildSegments store_degenerate ''abcdef'' [Suc 0])"
  using degenerate_keeps_tagging [of store_degenerate 0 "''abcdef''" "[]" "[Suc 0]"]
  by (simp add: store_degenerate_def)

section \<open>Out-of-range and inverted annotations\<close>

lemma segment_of_capped: "segment_of (capped t' h) st txt = segment_of h st txt"
  by (simp add: segment_of_def capped_def cap_issue_def split: option.splits)

lemma step_capped: "step (capped t' h) t s m = step h t s m"
  by (simp add: step_def segment_of_capped)

lemma sweep_capped: "sweep (capped t' h) t s ms = sweep h t s ms"
  by (induction ms arbitrary: s) (simp_all add: step_capped)

lemma finish_capped: "finish (capped t' h) t s = finish h t s"
  by (simp add: finish_def segment_of_capped)

lemma tail_sweep:
  "0 \<le> cursor s \<Longrightarrow> \<forall>m \<in> set ms. of_nat (length t) \<le> idx m \<Longrightarrow>
   filter nonempty (finish h t (sweep h t s ms)) =
     filter nonempty (segs s) @
     (if cursor s < of_nat (length t) then [segment_of h (stack s) (slice_from t (cursor s))] else [])"
proof (induction ms arbitrary: s)
  case Nil
  then show ?case
    by (simp add: finish_def nonempty_def segment_of_def slice_from_nonempty)
next
  case (Cons m ms)
  let ?s1 = "step h t s m"
  have c1: "cursor ?s1 = max (cursor s) (idx m)" by (rule cursor_step)
  then have "0 \<le> cursor ?s1" "\<not> cursor ?s1 < of_nat (length t)"
    using Cons.prems by simp_all
  with Cons.IH [of ?s1] Cons.prems(2)
  have "filter nonempty (finish h t (sweep h t ?s1 ms)) = filter nonempty (segs ?s1)" by simp
  also have "\<dots> = filter nonempty (segs s) @
     (if cursor s < of_nat (length t) then [segment_of h (stack s) (slice_from t (cursor s))] else [])"
  proof (cases "cursor s < idx m")
    case True
    have "slice t (cursor s) (idx m) = slice_from t (cursor s)"
      using Cons.prems by (intro slice_to_end) simp_all
    then have "segs ?s1 = segs s @ [segment_of h (stack s) (slice_from t (cursor s))]"
      using True by (simp add: segs_step)
    then show ?thesis
      using Cons.prems(1)
      by (simp add: nonempty_def segment_of_def slice_from_nonempty slice_from_beyond)
  next
    case False
    then have "segs ?s1 = segs s" "\<not> cursor s < of_nat (length t)"
      using Cons.prems(2) by (simp_all add: segs_step)
    then show ?thesis by simp
  qed
  finally show ?case by simp
qed

lemma capped_nonempty:
  "filter nonempty (buildSegments h text issues) =
   filter nonempty (buildSegments (capped text h) text issues)"
proof -
  let ?L = "rat_of_nat (length text)"
  let ?M = "markers_of h issues"
  let ?Mc = "map (cap_marker (length text)) ?M"
  define A where "A = sort_by marker_cmp (filter (\<lambda>m. idx m < ?L) ?M)"
  define Z where "Z = sort_by marker_cmp (filter (\<lambda>m. \<not> idx m < ?L) ?M)"
  define Zc where "Zc = sort_by marker_cmp (filter (\<lambda>m. \<not> idx m < ?L) ?Mc)"
  define s where "s = sweep h text init A"
  have c: "0 \<le> cursor s"
    unfolding s_def by (intro cursor_sweep_nonneg) (simp add: init_def)
  have Z: "\<forall>m \<in> set Z. ?L \<le> idx m" and Zc: "\<forall>m \<in> set Zc. ?L \<le> idx m"
    by (simp_all add: Z_def Zc_def set_sorted_markers)
  have raw: "sort_by marker_cmp ?M = A @ Z"
    unfolding A_def Z_def by (rule sorted_markers_partition)
  have cap: "sort_by marker_cmp ?Mc = A @ Zc"
    unfolding A_def Zc_def using sorted_markers_partition [of ?Mc ?L]
    by (simp add: filter_cap_marker)
  have "filter nonempty (buildSegments h text issues) =
        filter nonempty (finish h text (sweep h text s Z))"
    by (simp add: buildSegments_def raw sweep_append s_def)
  also have "\<dots> = filter nonempty (finish h text (sweep h text s Zc))"
    using c Z Zc by (simp add: tail_sweep)
  also have "\<dots> = filter nonempty (buildSegments (capped text h) text issues)"
    by (simp add: buildSegments_def markers_of_capped cap sweep_append s_def sweep_capped
        finish_capped)
  finally show ?thesis .
qed

lemma within_text_capped:
  "\<forall>i \<in> set issues. whole (issue_start (h i)) \<and> whole (issue_end (h i)) \<Longrightarrow>
   within_text (capped t h) t issues"
  by (simp add: within_text_def capped_def cap_issue_def whole_min whole_of_nat)

lemma filter_nonempty_solid:
  "\<forall>seg \<in> set ss. seg_text seg \<noteq> [] \<Longrightarrow> filter nonempty ss = ss"
  by (simp add: filter_id_conv nonempty_def)

text \<open>
  The markers carry \<open>start\<close> and \<open>end\<close> as they are.  An inverted annotation
  over \<open>[5, 2)\<close> on \<open>"abcdefgh"\<close> is closed before it is opened, stays on the
  stack and tags the remainder \<open>"fgh"\<close>; with the range made zero-width at 5 the
  remainder would be plain.  An annotation over \<open>[5, 10)\<close> on \<open>"abc"\<close> adds a
  segment with an empty text, which the clamped range \<open>[3, 3)\<close> does not.  For
  \<open>A\<close> over \<open>[-1, 5)\<close> listed before \<open>B\<close> over \<open>[-3, 5)\<close>, \<open>B\<close> is opened first
  and \<open>A\<close> governs \<open>[0, 5)\<close>; with both starts clamped to 0 the openings tie,
  keep the order of the list, and \<open>B\<close> governs.
\<close>

theorem clamping_counterexample:
  "buildSegments store_inverted ''abcdefgh'' [0] \<noteq>
     buildSegments (spec_normalised ''abcdefgh'' store_inverted) ''abcdefgh'' [0] \<and>
   buildSegments store_beyond ''abc'' [0] \<noteq>
     buildSegments (spec_normalised ''abc'' store_beyond) ''abc'' [0] \<and>
   buildSegments store_negative ''abcdefgh'' [0, Suc 0] \<noteq>
     buildSegments (spec_normalised ''abcdefgh'' store_negative) ''abcdefgh'' [0, Suc 0]"
  by (simp add: buildSegments_def sort_by_def marker_cmp_def Number_def store_inverted_def
      store_beyond_def store_negative_def init_def step_def finish_def segment_of_def active_def
      slice_def slice_from_def slice_index_def ToInteger_def Let_def spec_normalised_def
      spec_normalise_def spec_clamp_def)

text \<open>
  C5, amended. Every annotation of the list gives exactly its two markers, at
  its \<open>start\<close> and its \<open>end\<close> as they are: nothing is clamped and no annotation
  is dropped.  Positions beyond the end of the text act as the end of the text
  up to segments with an empty text: the non-empty segments of the output are
  the non-empty segments of the output for the annotations with \<open>start\<close> and
  \<open>end\<close> cut down to the length of the text, and they are that whole output
  when all positions are integers.  Whatever the annotations, the texts of the
  segments make up the text.
\<close>

theorem positions_used_as_given:
  "set (sort_by marker_cmp (markers_of h issues)) =
     (\<Union>r \<in> set issues. {\<lparr>idx = issue_start (h r), issue = r, is_open = True\<rparr>,
                           \<lparr>idx = issue_end (h r), issue = r, is_open = False\<rparr>}) \<and>
   length (sort_by marker_cmp (markers_of h issues)) = 2 * length issues \<and>
   filter nonempty (buildSegments h text issues) =
     filter nonempty (buildSegments (capped text h) text issues) \<and>
   ((\<forall>i \<in> set issues. whole (issue_start (h i)) \<and> whole (issue_end (h i))) \<longrightarrow>
      filter nonempty (buildSegments h text issues) = buildSegments (capped text h) text issues) \<and>
   concat (map seg_text (buildSegments h text issues)) = text"
proof (intro conjI impI)
  assume whole: "\<forall>i \<in> set issues. whole (issue_start (h i)) \<and> whole (issue_end (h i))"
  have "filter nonempty (buildSegments (capped text h) text issues) =
        buildSegments (capped text h) text issues"
  proof (rule filter_nonempty_solid, rule ballI)
    fix seg assume "seg \<in> set (buildSegments (capped text h) text issues)"
    then show "seg_text seg \<noteq> []"
      unfolding buildSegments_def
      using solid_sorted_markers [OF within_text_capped [OF whole], of "text"]
      by (intro solid_finish)
  qed
  then show "filter nonempty (buildSegments h text issues) =
      buildSegments (capped text h) text issues"
    using capped_nonempty [of h "text" issues] by simp
next
  have "covered text init" by (simp add: covered_def init_def texts_def)
  then have "covered text (sweep h text init (sort_by marker_cmp (markers_of h issues)))"
    by (rule covered_sweep)
  then show "concat (map seg_text (buildSegments h text issues)) = text"
    unfolding buildSegments_def by (simp add: covered_finish [unfolded texts_def])
next
  show "filter nonempty (buildSegments h text issues) =
     filter nonempty (buildSegments (capped text h) text issues)"
    by (rule capped_nonempty)
qed (simp_all add: set_sorted_markers length_sorted_markers set_markers_of length_markers_of)

theorem positions_used_as_given_witness:
  "filter nonempty (buildSegments store_beyond ''abc'' [0]) =
     buildSegments (capped ''abc'' store_beyond) ''abc'' [0] \<and>
   buildSegments (capped ''abc'' store_beyond) ''abc'' [0] =
     [\<lparr>seg_text = ''abc'', seg_type = Plain, seg_tip = None\<rparr>] \<and>
   buildSegments store_beyond ''abc'' [0] =
     [\<lparr>seg_text = ''abc'', seg_type = Plain, seg_tip = None\<rparr>,
      \<lparr>seg_text = [], seg_type = OfIssue Spell, seg_tip = None\<rparr>]"
proof -
  have whole: "\<forall>i \<in> set [0]. whole (issue_start (store_beyond i)) \<and> whole (issue_end (store_beyond i))"
    by (simp add: store_beyond_def whole_iff)
  have "filter nonempty (buildSegments store_beyond ''abc'' [0]) =
     buildSegments (capped ''abc'' store_beyond) ''abc'' [0]"
    using positions_used_as_given [of store_beyond "[0]" "''abc''"] whole by blast
  moreover have "buildSegments (capped ''abc'' store_beyond) ''abc'' [0] =
     [\<lparr>seg_text = ''abc'', seg_type = Plain, seg_tip = None\<rparr>]"
    by (simp add: buildSegments_def sort_by_def marker_cmp_def Number_def store_beyond_def
        capped_def cap_issue_def init_def step_def finish_def segment_of_def active_def slice_def
        slice_from_def slice_index_def ToInteger_def Let_def)
  moreover have "buildSegments store_beyond ''abc'' [0] =
     [\<lparr>seg_text = ''abc'', seg_type = Plain, seg_tip = None\<rparr>,
      \<lparr>seg_text = [], seg_type = OfIssue Spell, seg_tip = None\<rparr>]"
    by (simp add: buildSegments_def sort_by_def marker_cmp_def Number_def store_beyond_def
        init_def step_def finish_def segment_of_def active_def slice_def
        slice_from_def slice_index_def ToInteger_def Let_def)
  ultimately show ?thesis by blast
qed

end
